theory Spec2Isabelle
  imports Main "HOL-Library.Sublist"
begin

section \<open>JavaScript strings and the regular expressions of the source\<close>

text \<open>
  A JavaScript string is modelled as a HOL \<open>string\<close>: one \<open>char\<close> is one code unit, and the
  model covers the texts whose code units are below 256. For these, the class \<open>\s\<close> of a
  JavaScript regular expression holds tab, line feed, vertical tab, form feed, carriage
  return, space and the no-break space; \<open>.\<close> matches every code unit but line feed and
  carriage return.
\<close>

abbreviation dquote :: char where "dquote \<equiv> CHR 0x22"
abbreviation squote :: char where "squote \<equiv> CHR 0x27"
abbreviation backslash :: char where "backslash \<equiv> CHR 0x5C"
abbreviation backtick :: char where "backtick \<equiv> CHR 0x60"
abbreviation LF :: char where "LF \<equiv> CHR 0x0A"
abbreviation CR :: char where "CR \<equiv> CHR 0x0D"

definition is_space :: "char \<Rightarrow> bool" where
  "is_space c \<longleftrightarrow> c \<in> {CHR 0x09, LF, CHR 0x0B, CHR 0x0C, CR, CHR 0x20, CHR 0xA0}"

definition is_line_terminator :: "char \<Rightarrow> bool" where
  "is_line_terminator c \<longleftrightarrow> c = LF \<or> c = CR"

subsection \<open>Line comments: \<open>/(?:\r\n?|\n)\s*\/\/.*/g\<close>\<close>

text \<open>
  \<open>match_line_comment s\<close> is the match of the expression at the start of \<open>s\<close>: the text left
  after it, or \<open>None\<close>. A match starts with a carriage return or a line feed; the line feed
  that \<open>\n?\<close> may take is white space, so it and the greedy \<open>\s*\<close> together skip the longest
  run of white space; \<open>/\<close> is not white space, so no shorter run can be followed by \<open>//\<close>;
  the greedy \<open>.*\<close> then runs to the next line terminator or the end of the text.
\<close>

definition match_line_comment :: "string \<Rightarrow> string option" where
  "match_line_comment s =
     (case s of
        [] \<Rightarrow> None
      | c # cs \<Rightarrow>
          if c = CR \<or> c = LF then
            (let t = dropWhile is_space cs in
             if take 2 t = ''//''
             then Some (dropWhile (\<lambda>x. \<not> is_line_terminator x) (drop 2 t))
             else None)
          else None)"

lemma match_line_comment_shorter:
  "match_line_comment s = Some r \<Longrightarrow> length r < length s"
proof -
  assume m: "match_line_comment s = Some r"
  then obtain c cs where s: "s = c # cs"
    by (cases s) (auto simp: match_line_comment_def)
  from m s have r: "r = dropWhile (\<lambda>x. \<not> is_line_terminator x) (drop 2 (dropWhile is_space cs))"
    by (auto simp: match_line_comment_def Let_def split: if_splits)
  have "length r \<le> length (drop 2 (dropWhile is_space cs))"
    unfolding r by (rule length_dropWhile_le)
  also have "\<dots> \<le> length (dropWhile is_space cs)" by simp
  also have "\<dots> \<le> length cs" by (rule length_dropWhile_le)
  finally show ?thesis using s by simp
qed

text \<open>
  \<open>code.replace(/(?:\r\n?|\n)\s*\/\/.*/g, "")\<close>: the scan goes left to right; where the
  expression matches, the match is dropped and the scan goes on behind it; elsewhere the
  code unit is kept.
\<close>

function strip_comments :: "string \<Rightarrow> string" where
  "strip_comments [] = []"
| "strip_comments (c # cs) =
     (case match_line_comment (c # cs) of
        Some rest \<Rightarrow> strip_comments rest
      | None \<Rightarrow> c # strip_comments cs)"
  by pat_completeness auto
termination
  by (relation "measure length") (auto dest: match_line_comment_shorter)

subsection \<open>Call sites: \<open>/require\s*\(\s*(["'])((?:(?:(?!\1)[^\\]|(?:\\\\)))*)\1\s*\)/g\<close>\<close>

text \<open>
  \<open>scan_path q s\<close> is the greedy loop of group 2 behind the quote \<open>q\<close>: each round takes one
  code unit that is neither the quote nor a backslash, or two backslashes. It returns the
  text taken and the text left. The loop cannot stop earlier and still be followed by the
  quote, since every code unit it takes is not the quote.
\<close>

fun scan_path :: "char \<Rightarrow> string \<Rightarrow> string \<times> string" where
  "scan_path q [] = ([], [])"
| "scan_path q [c] = (if c = backslash \<or> c = q then ([], [c]) else ([c], []))"
| "scan_path q (c # d # s) =
     (if c = backslash then
        (if d = backslash then (let (p, r) = scan_path q s in (c # d # p, r))
         else ([], c # d # s))
      else if c = q then ([], c # d # s)
      else (let (p, r) = scan_path q (d # s) in (c # p, r)))"

definition strip_prefix :: "string \<Rightarrow> string \<Rightarrow> string option" where
  "strip_prefix p s = (if prefix p s then Some (drop (length p) s) else None)"

text \<open>
  \<open>match_require s\<close> is the match of the expression at the start of \<open>s\<close>: the matched text,
  group 2 and the text left.
\<close>

definition match_require :: "string \<Rightarrow> (string \<times> string \<times> string) option" where
  "match_require s =
     (case strip_prefix ''require'' s of
        None \<Rightarrow> None
      | Some s1 \<Rightarrow>
         (case dropWhile is_space s1 of
            [] \<Rightarrow> None
          | b # s2 \<Rightarrow>
             if b \<noteq> CHR ''('' then None
             else
              (case dropWhile is_space s2 of
                 [] \<Rightarrow> None
               | q # s3 \<Rightarrow>
                  if q \<noteq> dquote \<and> q \<noteq> squote then None
                  else
                   (let (modulePath, s4) = scan_path q s3 in
                    case s4 of
                      [] \<Rightarrow> None
                    | q' # s5 \<Rightarrow>
                       if q' \<noteq> q then None
                       else
                        (case dropWhile is_space s5 of
                           [] \<Rightarrow> None
                         | e # s6 \<Rightarrow>
                            if e \<noteq> CHR '')'' then None
                            else Some (take (length s - length s6) s, modulePath, s6))))))"

lemma scan_path_length: "length (snd (scan_path q s)) \<le> length s"
  by (induction q s rule: scan_path.induct) (auto simp: Let_def split: prod.splits)

lemma match_require_shorter:
  assumes "match_require s = Some (m, p, r)"
  shows "length r < length s"
proof -
  from assms obtain s1 where s1: "strip_prefix ''require'' s = Some s1"
    by (auto simp: match_require_def split: option.splits)
  then have l1: "length s1 < length s"
    by (auto simp: strip_prefix_def prefix_def split: if_splits)
  from assms s1 obtain s2 where s2: "dropWhile is_space s1 = CHR ''('' # s2"
    by (auto simp: match_require_def split: list.splits if_splits)
  have "length (dropWhile is_space s1) \<le> length s1" by (rule length_dropWhile_le)
  with s2 have l2: "length s2 < length s1" by simp
  from assms s1 s2 obtain q s3 where s3: "dropWhile is_space s2 = q # s3"
    by (auto simp: match_require_def split: list.splits if_splits)
  have "length (dropWhile is_space s2) \<le> length s2" by (rule length_dropWhile_le)
  with s3 have l3: "length s3 < length s2" by simp
  from assms s1 s2 s3 obtain s5 where s5: "snd (scan_path q s3) = q # s5"
    by (auto simp: match_require_def Let_def split: list.splits if_splits prod.splits)
  have "length (snd (scan_path q s3)) \<le> length s3" by (rule scan_path_length)
  with s5 have l5: "length s5 < length s3" by simp
  from assms s1 s2 s3 s5 have s6: "dropWhile is_space s5 = CHR '')'' # r"
    by (auto simp: match_require_def Let_def split: list.splits if_splits prod.splits)
  have "length (dropWhile is_space s5) \<le> length s5" by (rule length_dropWhile_le)
  with s6 have "length r < length s5" by simp
  with l1 l2 l3 l5 show ?thesis by simp
qed

text \<open>
  The call sites of a text, as \<open>String.prototype.replace\<close> with a global expression finds
  them before it calls the replacer: left to right, each match starting where the one
  before ended; a code unit where no match starts stands for itself.
\<close>

datatype seg = Chr char | Call string string

function scan_requires :: "string \<Rightarrow> seg list" where
  "scan_requires [] = []"
| "scan_requires (c # cs) =
     (case match_require (c # cs) of
        Some (m, modulePath, rest) \<Rightarrow> Call m modulePath # scan_requires rest
      | None \<Rightarrow> Chr c # scan_requires cs)"
  by pat_completeness auto
termination
  by (relation "measure length") (auto dest: match_require_shorter)

subsection \<open>Replacing a literal expression by a replacement string\<close>

text \<open>
  The expressions \<open>/__dirname/g\<close>, \<open>/__filename/g\<close>, \<open>/\$\{id\}/g\<close> and \<open>/\$\{path\}/g\<close> match one
  fixed text and have no group. In a replacement string \<open>String.prototype.replace\<close> reads
  \<open>$$\<close> as a dollar sign, \<open>$&\<close> as the matched text, a dollar sign and a backtick as the
  text before the match and a dollar sign and a single quote as the text behind it; with
  no group, every other code unit stands for itself.
\<close>

fun get_substitution :: "string \<Rightarrow> string \<Rightarrow> string \<Rightarrow> string \<Rightarrow> string" where
  "get_substitution matched pre post [] = []"
| "get_substitution matched pre post [c] = [c]"
| "get_substitution matched pre post (c # d # r) =
     (if c = CHR ''$'' \<and> d = CHR ''$'' then CHR ''$'' # get_substitution matched pre post r
      else if c = CHR ''$'' \<and> d = CHR ''&'' then matched @ get_substitution matched pre post r
      else if c = CHR ''$'' \<and> d = backtick then pre @ get_substitution matched pre post r
      else if c = CHR ''$'' \<and> d = squote then post @ get_substitution matched pre post r
      else c # get_substitution matched pre post (d # r))"

text \<open>
  \<open>replace_all pat repl pre s\<close> scans \<open>s\<close>, the rest of a text whose scanned part is
  \<open>before\<close>. The source only uses patterns that are not empty.
\<close>

function replace_all :: "string \<Rightarrow> string \<Rightarrow> string \<Rightarrow> string \<Rightarrow> string" where
  "replace_all pat repl pre [] = []"
| "replace_all pat repl pre (c # cs) =
     (if pat \<noteq> [] \<and> prefix pat (c # cs)
      then get_substitution pat pre (drop (length pat) (c # cs)) repl
             @ replace_all pat repl (pre @ pat) (drop (length pat) (c # cs))
      else c # replace_all pat repl (pre @ [c]) cs)"
  by pat_completeness auto
termination
  by (relation "measure (\<lambda>(pat, repl, pre, s). length s)") (auto simp: neq_Nil_conv)

definition js_replace :: "string \<Rightarrow> string \<Rightarrow> string \<Rightarrow> string" where
  "js_replace pat repl s = replace_all pat repl [] s"

text \<open>
  \<open>modulePath.replace("\\\\", "\\")\<close> has a string as its pattern: only the first pair of
  backslashes is replaced, by one backslash.
\<close>

fun unescape_first :: "string \<Rightarrow> string" where
  "unescape_first (c # d # s) =
     (if c = backslash \<and> d = backslash then backslash # s else c # unescape_first (d # s))"
| "unescape_first s = s"

text \<open>\<open>modulePath.match(/^\.?\.?\//)\<close> is not null: the path starts with \<open>/\<close>, \<open>./\<close> or \<open>../\<close>.\<close>

definition is_fs_path :: "string \<Rightarrow> bool" where
  "is_fs_path p \<longleftrightarrow> prefix ''/'' p \<or> prefix ''./'' p \<or> prefix ''../'' p"

subsection \<open>Numbers and arrays\<close>

definition digit_char :: "nat \<Rightarrow> char" where
  "digit_char d = char_of (of_char CHR ''0'' + d)"

function show_nat :: "nat \<Rightarrow> string" where
  "show_nat n = (if n < 10 then [digit_char n] else show_nat (n div 10) @ [digit_char (n mod 10)])"
  by pat_completeness auto
termination
  by (relation "measure id") auto

definition show_int :: "int \<Rightarrow> string" where
  "show_int i = (if i < 0 then CHR ''-'' # show_nat (nat (- i)) else show_nat (nat i))"

text \<open>\<open>Array.prototype.indexOf\<close>: the first index of the element, \<open>-1\<close> when it is absent.\<close>

fun indexOf :: "'a list \<Rightarrow> 'a \<Rightarrow> int" where
  "indexOf [] x = - 1"
| "indexOf (y # ys) x =
     (if y = x then 0 else (let i = indexOf ys x in if i < 0 then - 1 else i + 1))"

section \<open>The stream: \<open>lib/moduleConcatStream.js\<close>\<close>

subsection \<open>Options, collaborators and state\<close>

text \<open>
  The source tests the option \<open>browser\<close> in two ways: \<open>browser !== true\<close> and the
  truthiness of \<open>browser\<close>. The option is therefore the boolean \<open>true\<close>, another truthy
  value or a falsy one (\<open>undefined\<close> included). \<open>outputPath\<close> and \<open>excludeFiles\<close> may be
  absent; an empty string is falsy, an empty array is truthy.
\<close>

datatype jsflag = Jtrue | Jtruthy | Jfalsy

record options =
  outputPath :: "string option"
  excludeFiles :: "string list option"
  excludeNodeModules :: bool
  browser :: jsflag

definition truthy_path :: "string option \<Rightarrow> bool" where
  "truthy_path p \<longleftrightarrow> (case p of None \<Rightarrow> False | Some s \<Rightarrow> s \<noteq> [])"

text \<open>
  What the module takes from outside: the four templates it reads when it is loaded, the
  file system, the package \<open>resolve\<close>, the functions of \<open>path\<close>, \<open>JSON.stringify\<close>, and the
  answers of \<open>Readable.push\<close>. \<open>readFile p = None\<close> and \<open>resolveSync \<dots> = None\<close> stand for a
  call that throws. \<open>resolveSync name basedir filter\<close> is \<open>resolve.sync\<close> with the fixed list
  of extensions of the source; \<open>filter\<close> tells whether the package filter of the browser
  mode is passed. \<open>ready n\<close> is what \<open>push\<close> returns for the chunk pushed after \<open>n\<close> others:
  whether the consumer wants more.
\<close>

record env =
  HEADER :: string
  FOOTER :: string
  FILE_HEADER :: string
  FILE_FOOTER :: string
  readFile :: "string \<Rightarrow> string option"
  isCore :: "string \<Rightarrow> bool"
  resolveSync :: "string \<Rightarrow> string \<Rightarrow> bool \<Rightarrow> string option"
  path_resolve :: "string \<Rightarrow> string"
  path_dirname :: "string \<Rightarrow> string"
  path_extname :: "string \<Rightarrow> string"
  path_relative :: "string \<Rightarrow> string \<Rightarrow> string"
  JSON_stringify :: "string \<Rightarrow> string"
  ready :: "nat \<Rightarrow> bool"

datatype chunk = Data string | EOF

datatype error = ReadError string

text \<open>
  The fields of the stream object, and of the \<open>Readable\<close> behind it the chunks pushed so
  far and the \<open>error\<close> events handed to \<open>process.nextTick\<close>.
\<close>

record state =
  opts :: options
  files :: "string list"
  fileIndex :: nat
  addonsExcluded :: "string list"
  headerWritten :: bool
  pushed :: "chunk list"
  scheduled :: "error list"

definition constructor :: "env \<Rightarrow> string \<Rightarrow> options \<Rightarrow> state" where
  "constructor E entryModulePath options =
     \<lparr> opts = options\<lparr>excludeFiles := map_option (map (path_resolve E)) (excludeFiles options)\<rparr>,
       files = [entryModulePath],
       fileIndex = 0,
       addonsExcluded = [],
       headerWritten = False,
       pushed = [],
       scheduled = [] \<rparr>"

definition push :: "env \<Rightarrow> chunk \<Rightarrow> state \<Rightarrow> bool \<times> state" where
  "push E c st = (ready E (length (pushed st)), st\<lparr>pushed := pushed st @ [c]\<rparr>)"

subsection \<open>The replacer of \<open>require\<close> call sites\<close>

definition to_lower :: "char \<Rightarrow> char" where
  "to_lower c =
     (let n = (of_char c :: nat) in
      if (65 \<le> n \<and> n \<le> 90) \<or> (192 \<le> n \<and> n \<le> 222 \<and> n \<noteq> 215) then char_of (n + 32) else c)"

definition is_excluded :: "options \<Rightarrow> string \<Rightarrow> bool" where
  "is_excluded options p \<longleftrightarrow> (case excludeFiles options of None \<Rightarrow> False | Some xs \<Rightarrow> 0 \<le> indexOf xs p)"

definition require_call :: "int \<Rightarrow> int \<Rightarrow> string" where
  "require_call index parentIndex =
     ''__require('' @ show_int index @ '','' @ show_int parentIndex @ '')''"

text \<open>
  The arrow function passed to \<open>code.replace(requireRegex, \<dots>)\<close>, for the file \<open>filePath\<close>:
  from the matched text and group 2 to the replacement and the new state. The quote
  (group 1) is not used.
\<close>

definition replacer :: "env \<Rightarrow> string \<Rightarrow> string \<Rightarrow> string \<Rightarrow> state \<Rightarrow> string \<times> state" where
  "replacer E filePath match modulePath st =
     (if isCore E modulePath \<and> browser (opts st) \<noteq> Jtrue then (match, st)
      else
        let modulePath1 = unescape_first modulePath in
        if excludeNodeModules (opts st) \<and> \<not> is_fs_path modulePath1 then (match, st)
        else
          (case resolveSync E modulePath1 (path_dirname E filePath) (browser (opts st) \<noteq> Jfalsy) of
             None \<Rightarrow> (match, st)
           | Some resolved \<Rightarrow>
               if isCore E resolved then (match, st)
               else if map to_lower (path_extname E resolved) = ''.node''
               then (match, st\<lparr>addonsExcluded := addonsExcluded st @ [resolved]\<rparr>)
               else
                 let index = indexOf (files st) resolved in
                 if index < 0 then
                   (if \<not> is_excluded (opts st) resolved then
                      (let st1 = st\<lparr>files := files st @ [resolved]\<rparr>;
                           index1 = int (length (files st1)) - 1;
                           parentIndex = indexOf (files st1) filePath
                       in (require_call index1 parentIndex, st1))
                    else (match, st))
                 else
                   (let parentIndex = indexOf (files st) filePath
                    in (require_call index parentIndex, st))))"

text \<open>The replacer is called for each call site in turn; the other code units are kept.\<close>

fun replace_requires :: "env \<Rightarrow> string \<Rightarrow> seg list \<Rightarrow> state \<Rightarrow> string \<times> state" where
  "replace_requires E filePath [] st = ([], st)"
| "replace_requires E filePath (Chr c # segs) st =
     (let (out, st1) = replace_requires E filePath segs st in (c # out, st1))"
| "replace_requires E filePath (Call match modulePath # segs) st =
     (let (r, st1) = replacer E filePath match modulePath st;
          (out, st2) = replace_requires E filePath segs st1
      in (r @ out, st2))"

subsection \<open>\<open>_addFile\<close>\<close>

definition replace_tokens :: "env \<Rightarrow> options \<Rightarrow> string \<Rightarrow> string \<Rightarrow> string" where
  "replace_tokens E options filePath code =
     (if truthy_path (outputPath options) \<and> browser options \<noteq> Jtrue then
        (let outPath = the (outputPath options);
             rel = JSON_stringify E (path_relative E (path_dirname E outPath) filePath)
         in js_replace ''__filename'' (''__getFilename('' @ rel @ '')'')
              (js_replace ''__dirname'' (''__getDirname('' @ rel @ '')'') code))
      else code)"

definition file_header :: "env \<Rightarrow> string list \<Rightarrow> string \<Rightarrow> string" where
  "file_header E fs filePath =
     js_replace ''${path}'' filePath (js_replace ''${id}'' (show_int (indexOf fs filePath)) (FILE_HEADER E))"

definition file_footer :: "env \<Rightarrow> string list \<Rightarrow> string \<Rightarrow> string" where
  "file_footer E fs filePath =
     js_replace ''${path}'' filePath (js_replace ''${id}'' (show_int (indexOf fs filePath)) (FILE_FOOTER E))"

text \<open>
  \<open>_addFile\<close> returns what \<open>push\<close> returned, or \<open>false\<close> behind a failed read; then the cursor
  has not moved and one \<open>error\<close> event is scheduled.
\<close>

definition addFile :: "env \<Rightarrow> string \<Rightarrow> state \<Rightarrow> bool \<times> state" where
  "addFile E filePath st =
     (case readFile E filePath of
        None \<Rightarrow> (False, st\<lparr>scheduled := scheduled st @ [ReadError filePath]\<rparr>)
      | Some code \<Rightarrow>
          let st1 = st\<lparr>fileIndex := fileIndex st + 1\<rparr>;
              code1 = strip_comments code;
              (code2, st2) = replace_requires E filePath (scan_requires code1) st1;
              code3 = replace_tokens E (opts st2) filePath code2
          in push E
               (Data (file_header E (files st2) filePath
                      @ (if path_extname E filePath = ''.json'' then ''module.exports = '' else [])
                      @ code3
                      @ file_footer E (files st2) filePath))
               st2)"

subsection \<open>\<open>_continueProcessing\<close>, \<open>_read\<close> and \<open>getStats\<close>\<close>

text \<open>
  The loop over the file list. It returns \<open>False\<close> when \<open>_addFile\<close> returned \<open>false\<close> and the
  caller has to return, \<open>True\<close> when the cursor has reached the end of the list; it has no
  value when it runs forever.
\<close>

partial_function (option) write_files :: "env \<Rightarrow> state \<Rightarrow> (bool \<times> state) option" where
  "write_files E st =
     (if fileIndex st < length (files st) then
        (case addFile E (files st ! fileIndex st) st of
           (go, st1) \<Rightarrow> if go then write_files E st1 else Some (False, st1))
      else Some (True, st))"

declare write_files.simps [code]

definition continueProcessing :: "env \<Rightarrow> state \<Rightarrow> state option" where
  "continueProcessing E st =
     (let (go, st1) =
            (if \<not> headerWritten st then push E (Data (HEADER E)) (st\<lparr>headerWritten := True\<rparr>)
             else (True, st))
      in if \<not> go then Some st1
         else
           (case write_files E st1 of
              None \<Rightarrow> None
            | Some (done_all, st2) \<Rightarrow>
                if \<not> done_all then Some st2
                else
                  (let st3 = snd (push E (Data (FOOTER E)) st2);
                       st4 = snd (push E EOF st3)
                   in Some st4)))"

definition read :: "env \<Rightarrow> state \<Rightarrow> state option" where
  "read E st = continueProcessing E st"

datatype stats_error = StatsNotAvailable

definition getStats :: "state \<Rightarrow> stats_error + (string list \<times> string list)" where
  "getStats st =
     (if fileIndex st < length (files st) then Inl StatsNotAvailable
      else Inr (files st, addonsExcluded st))"

text \<open>
  A run: the consumer calls \<open>_read\<close> \<open>n\<close> times. \<open>Readable\<close> does not call \<open>_read\<close> again once
  the end marker has been pushed.
\<close>

definition ended :: "state \<Rightarrow> bool" where
  "ended st \<longleftrightarrow> EOF \<in> set (pushed st)"

fun reads :: "nat \<Rightarrow> env \<Rightarrow> state \<Rightarrow> state option" where
  "reads 0 E st = Some st"
| "reads (Suc n) E st =
     (if ended st then Some st
      else (case read E st of None \<Rightarrow> None | Some st1 \<Rightarrow> reads n E st1))"

text \<open>The text a consumer has received: the chunks pushed, one behind the other.\<close>

fun chunk_text :: "chunk \<Rightarrow> string" where
  "chunk_text (Data s) = s"
| "chunk_text EOF = []"

definition emitted :: "state \<Rightarrow> string" where
  "emitted st = concat (map chunk_text (pushed st))"

subsection \<open>A sample project\<close>

text \<open>
  Two files, \<open>/p/a.js\<close> requiring \<open>./b\<close> and \<open>/p/b.js\<close>; the functions of \<open>path\<close> and
  \<open>JSON.stringify\<close> are given by what they return on the paths of this project.
\<close>

definition sample_env :: env where
  "sample_env =
     \<lparr> HEADER = ''H;'', FOOTER = '';F'',
       FILE_HEADER = ''<${id}:${path}>'', FILE_FOOTER = ''</${id}>'',
       readFile = map_of [(''/p/a.js'', ''x=require('./b');''), (''/p/b.js'', ''y=__dirname'')],
       isCore = (\<lambda>n. n = ''fs''),
       resolveSync = (\<lambda>name basedir flt.
          if basedir = ''/p'' then map_of [(''./b'', ''/p/b.js''), (''./a'', ''/p/a.js'')] name else None),
       path_resolve = (\<lambda>p. p),
       path_dirname = (\<lambda>p. take 2 p),
       path_extname = (\<lambda>p. drop (length p - 3) p),
       path_relative = (\<lambda>from to. drop 3 to),
       JSON_stringify = (\<lambda>s. dquote # s @ [dquote]),
       ready = (\<lambda>n. True) \<rparr>"

definition sample_options :: options where
  "sample_options =
     \<lparr> outputPath = Some ''/p/out.js'', excludeFiles = None,
       excludeNodeModules = False, browser = Jfalsy \<rparr>"

text \<open>
  The same file given by a relative path: \<open>a.js\<close> in the directory \<open>/p\<close> requires \<open>./a\<close>,
  which \<open>resolve.sync\<close> answers with the absolute path \<open>/p/a.js\<close>.
\<close>

definition relative_entry_env :: env where
  "relative_entry_env =
     sample_env\<lparr> readFile := map_of [(''a.js'', ''x=require('./a');''), (''/p/a.js'', ''x=require('./a');'')],
                 path_dirname := (\<lambda>p. if p = ''a.js'' then ''.'' else ''/p''),
                 resolveSync := (\<lambda>name basedir flt. if name = ''./a'' then Some ''/p/a.js'' else None) \<rparr>"

text \<open>The sample project without its second file: reading \<open>/p/b.js\<close> fails.\<close>

definition missing_file_env :: env where
  "missing_file_env = sample_env\<lparr>readFile := map_of [(''/p/a.js'', ''x=require('./b');'')]\<rparr>"


definition third_party_env :: env where
  "third_party_env =
     sample_env\<lparr> readFile := map_of [(''/p/a.js'', ''x=require('lodash');'')],
                 resolveSync := (\<lambda>name basedir flt. Some ''/p/b.js'') \<rparr>"

section \<open>Properties\<close>

subsection \<open>Auxiliary definitions\<close>

text \<open>
  \<open>extends st st'\<close>: what any part of a run may do to the state. The options stay, the
  file list grows at its end by paths that are new, pairwise different and not excluded,
  the other lists grow at their ends, no end marker is pushed and the cursor does not go
  back.
\<close>

definition extends :: "state \<Rightarrow> state \<Rightarrow> bool" where
  "extends st st' \<longleftrightarrow>
     opts st' = opts st \<and>
     (\<exists>new. files st' = files st @ new \<and> distinct new \<and> set new \<inter> set (files st) = {}
        \<and> (\<forall>p \<in> set new. \<not> is_excluded (opts st) p)) \<and>
     prefix (addonsExcluded st) (addonsExcluded st') \<and>
     prefix (pushed st) (pushed st') \<and> EOF \<notin> set (drop (length (pushed st)) (pushed st')) \<and>
     prefix (scheduled st) (scheduled st') \<and>
     fileIndex st \<le> fileIndex st' \<and>
     (headerWritten st \<longrightarrow> headerWritten st')"


text \<open>\<open>appended st st'\<close>: the part of \<open>extends\<close> about the options and the file list.\<close>

definition appended :: "state \<Rightarrow> state \<Rightarrow> bool" where
  "appended st st' \<longleftrightarrow>
     opts st' = opts st \<and>
     (\<exists>new. files st' = files st @ new \<and> distinct new \<and> set new \<inter> set (files st) = {}
        \<and> (\<forall>p \<in> set new. \<not> is_excluded (opts st) p))"

text \<open>
  \<open>resolves_to E filePath name st p\<close>: for the name \<open>name\<close> in the file \<open>filePath\<close> the replacer
  gets as far as the lookup in the file list, with \<open>p\<close> as the resolved path: the name is
  not skipped as a core module or a third-party module, \<open>resolve.sync\<close> returns \<open>p\<close>, and \<open>p\<close>
  is neither a core module nor a native add-on.
\<close>

definition resolves_to :: "env \<Rightarrow> string \<Rightarrow> string \<Rightarrow> state \<Rightarrow> string \<Rightarrow> bool" where
  "resolves_to E filePath name st p \<longleftrightarrow>
     \<not> (isCore E name \<and> browser (opts st) \<noteq> Jtrue) \<and>
     \<not> (excludeNodeModules (opts st) \<and> \<not> is_fs_path (unescape_first name)) \<and>
     resolveSync E (unescape_first name) (path_dirname E filePath) (browser (opts st) \<noteq> Jfalsy) = Some p \<and>
     \<not> isCore E p \<and> map to_lower (path_extname E p) \<noteq> ''.node''"

text \<open>The call sites of a text: the matched text and group 2 of each match.\<close>

definition call_sites :: "string \<Rightarrow> (string \<times> string) list" where
  "call_sites code = concat (map (\<lambda>seg. case seg of Chr c \<Rightarrow> [] | Call m p \<Rightarrow> [(m, p)]) (scan_requires code))"

text \<open>
  \<open>stuck E st\<close>: the header is written, the run has not ended, and the file at the cursor
  cannot be read.
\<close>

definition stuck :: "env \<Rightarrow> state \<Rightarrow> bool" where
  "stuck E st \<longleftrightarrow>
     headerWritten st \<and> fileIndex st < length (files st) \<and>
     readFile E (files st ! fileIndex st) = None \<and> \<not> ended st"

text \<open>
  \<open>wrapped E fs k chunks\<close>: the chunks are, in their order, file chunks of the files of \<open>fs\<close>
  from position \<open>k\<close> on: each starts with the file header and ends with the file footer of
  its file.
\<close>

definition wrapped :: "env \<Rightarrow> string list \<Rightarrow> nat \<Rightarrow> string list \<Rightarrow> bool" where
  "wrapped E fs k chunks \<longleftrightarrow>
     (\<forall>i < length chunks. \<exists>body.
        chunks ! i = file_header E fs (fs ! (k + i)) @ body @ file_footer E fs (fs ! (k + i)))"

text \<open>
  \<open>readable E st\<close>: every file of the list can be read. \<open>resolves_readable E\<close>: so can every
  path \<open>resolve.sync\<close> returns. \<open>steady E st\<close>: a state of a run in which no read has failed.
  \<open>remaining E st\<close> bounds the calls of \<open>_read\<close> such a run still needs before it ends.
\<close>

definition readable :: "env \<Rightarrow> state \<Rightarrow> bool" where
  "readable E st \<longleftrightarrow> (\<forall>f \<in> set (files st). readFile E f \<noteq> None)"

definition resolves_readable :: "env \<Rightarrow> bool" where
  "resolves_readable E \<longleftrightarrow>
     (\<forall>name dir flt p. resolveSync E name dir flt = Some p \<longrightarrow> readFile E p \<noteq> None)"

definition remaining :: "env \<Rightarrow> state \<Rightarrow> nat" where
  "remaining E st = (if headerWritten st then 0 else 1) + (card (dom (readFile E)) - fileIndex st)"

definition steady :: "env \<Rightarrow> state \<Rightarrow> bool" where
  "steady E st \<longleftrightarrow>
     distinct (files st) \<and> fileIndex st \<le> length (files st) \<and>
     (\<forall>f \<in> set (take (fileIndex st) (files st)). readFile E f \<noteq> None) \<and> scheduled st = []"

text \<open>
  \<open>has_pattern repl\<close>: the replacement string \<open>repl\<close> holds one of the patterns that
  \<open>get_substitution\<close> reads, a dollar sign followed by a dollar sign, \<open>&\<close>, a backtick or a
  single quote.
\<close>

fun has_pattern :: "string \<Rightarrow> bool" where
  "has_pattern (c # d # r) =
     (c = CHR ''$'' \<and> (d = CHR ''$'' \<or> d = CHR ''&'' \<or> d = backtick \<or> d = squote)
      \<or> has_pattern (d # r))"
| "has_pattern s = False"

text \<open>
  The definitions that follow are not taken from the source: they say what the
  specification says, and the source is compared with them. Replacement as the
  specification words it has no replacement patterns: \<open>substitute pat repl s\<close> is \<open>s\<close> with every occurrence of the text \<open>pat\<close> replaced by the
  text \<open>repl\<close>, the occurrences taken from left to right. \<open>substitute_both\<close> replaces the
  occurrences of two texts in one pass over \<open>s\<close>: what it puts in is not looked at again.
\<close>

function substitute :: "string \<Rightarrow> string \<Rightarrow> string \<Rightarrow> string" where
  "substitute pat repl [] = []"
| "substitute pat repl (c # cs) =
     (if pat \<noteq> [] \<and> prefix pat (c # cs)
      then repl @ substitute pat repl (drop (length pat) (c # cs))
      else c # substitute pat repl cs)"
  by pat_completeness auto
termination
  by (relation "measure (\<lambda>(pat, repl, s). length s)") (auto simp: neq_Nil_conv)

function substitute_both :: "string \<Rightarrow> string \<Rightarrow> string \<Rightarrow> string \<Rightarrow> string \<Rightarrow> string" where
  "substitute_both p1 r1 p2 r2 [] = []"
| "substitute_both p1 r1 p2 r2 (c # cs) =
     (if p1 \<noteq> [] \<and> prefix p1 (c # cs)
      then r1 @ substitute_both p1 r1 p2 r2 (drop (length p1) (c # cs))
      else if p2 \<noteq> [] \<and> prefix p2 (c # cs)
      then r2 @ substitute_both p1 r1 p2 r2 (drop (length p2) (c # cs))
      else c # substitute_both p1 r1 p2 r2 cs)"
  by pat_completeness auto
termination
  by (relation "measure (\<lambda>(p1, r1, p2, r2, s). length s)") (auto simp: neq_Nil_conv)

text \<open>
  \<open>spec_fill_template template i path\<close> is what the specification writes
  \<open>FILE_HEADER(i, path)\<close> and \<open>FILE_FOOTER(i, path)\<close>: the template with its two placeholders filled, \<open>${id}\<close> by the
  decimal digits of the identity and \<open>${path}\<close> by the path, both as they are.
\<close>

definition spec_fill_template :: "string \<Rightarrow> nat \<Rightarrow> string \<Rightarrow> string" where
  "spec_fill_template template i path = substitute_both ''${id}'' (show_nat i) ''${path}'' path template"

text \<open>
  \<open>spec_rewrite_tokens arg code\<close> is the path-token step of the specification: every
  occurrence of \<open>__dirname\<close> is replaced by the call \<open>__getDirname(arg)\<close> and every occurrence of
  \<open>__filename\<close> by the call \<open>__getFilename(arg)\<close>, with the same argument in both.
  \<open>rewrites_tokens options\<close> is the condition under which the source runs this step, and
  \<open>token_argument E options filePath\<close> the argument it builds: \<open>JSON.stringify\<close> of the path of
  the file relative to the directory of the output path.
\<close>

definition spec_rewrite_tokens :: "string \<Rightarrow> string \<Rightarrow> string" where
  "spec_rewrite_tokens arg code =
     substitute_both ''__dirname'' (''__getDirname('' @ arg @ '')'')
                     ''__filename'' (''__getFilename('' @ arg @ '')'') code"

definition rewrites_tokens :: "options \<Rightarrow> bool" where
  "rewrites_tokens options \<longleftrightarrow> truthy_path (outputPath options) \<and> browser options \<noteq> Jtrue"

definition token_argument :: "env \<Rightarrow> options \<Rightarrow> string \<Rightarrow> string" where
  "token_argument E options filePath =
     JSON_stringify E (path_relative E (path_dirname E (the (outputPath options))) filePath)"

subsection \<open>Arrays\<close>

lemma indexOf_ge: "- 1 \<le> indexOf xs x"
  by (induction xs) (auto simp: Let_def)

lemma indexOf_neg_iff: "indexOf xs x < 0 \<longleftrightarrow> x \<notin> set xs"
  using indexOf_ge [of _ x] by (induction xs) (auto simp: Let_def)

lemma indexOf_absent: "x \<notin> set xs \<Longrightarrow> indexOf xs x = - 1"
  using indexOf_neg_iff [of xs x] indexOf_ge [of xs x] by simp

lemma indexOf_append: "x \<in> set xs \<Longrightarrow> indexOf (xs @ ys) x = indexOf xs x"
  by (induction xs) (auto simp: Let_def indexOf_neg_iff)

lemma indexOf_append_new: "x \<notin> set xs \<Longrightarrow> indexOf (xs @ [x]) x = int (length xs)"
  by (induction xs) (auto simp: Let_def)

lemma indexOf_nth: "distinct xs \<Longrightarrow> i < length xs \<Longrightarrow> indexOf xs (xs ! i) = int i"
proof (induction xs arbitrary: i)
  case Nil
  then show ?case by simp
next
  case (Cons y ys)
  show ?case
  proof (cases i)
    case 0
    then show ?thesis by simp
  next
    case (Suc j)
    with Cons.prems have "ys ! j \<in> set ys" "y \<notin> set ys" "distinct ys" "j < length ys" by auto
    with Cons.IH [of j] Suc show ?thesis by (auto simp: Let_def)
  qed
qed


subsection \<open>Replacement without patterns\<close>

lemma get_substitution_plain:
  "\<not> has_pattern repl \<Longrightarrow> get_substitution m pre post repl = repl"
  by (induction m pre post repl rule: get_substitution.induct) auto

lemma replace_all_plain:
  "\<not> has_pattern repl \<Longrightarrow> replace_all pat repl pre s = substitute pat repl s"
  by (induction pat repl pre s rule: replace_all.induct) (auto simp: get_substitution_plain)

lemma has_pattern_Cons: "c \<noteq> CHR ''$'' \<Longrightarrow> has_pattern (c # s) = has_pattern s"
  by (cases s) simp_all

lemma has_pattern_closed: "\<not> has_pattern s \<Longrightarrow> \<not> has_pattern (s @ '')'')"
  by (induction s rule: has_pattern.induct) auto

lemma has_pattern_call:
  "\<not> has_pattern arg \<Longrightarrow> \<not> has_pattern (''__getDirname('' @ arg @ '')'')"
  "\<not> has_pattern arg \<Longrightarrow> \<not> has_pattern (''__getFilename('' @ arg @ '')'')"
  by (simp_all add: has_pattern_Cons has_pattern_closed)

lemma has_pattern_digit: "\<not> has_pattern (show_int 0)"
  by code_simp


lemma substitute_prefix: "p \<noteq> [] \<Longrightarrow> substitute p r (p @ y) = r @ substitute p r y"
  by (cases p) simp_all

lemma substitute_skip:
  assumes "\<And>k. k < length a \<Longrightarrow> \<not> prefix p (drop k a @ x)"
  shows "substitute p r (a @ x) = a @ substitute p r x"
  using assms
proof (induction a)
  case Nil
  then show ?case by simp
next
  case (Cons c a)
  from Cons.prems [of 0] have n: "\<not> prefix p (c # a @ x)" by simp
  have "\<And>k. k < length a \<Longrightarrow> \<not> prefix p (drop k a @ x)"
    using Cons.prems [of "Suc k" for k] by simp
  from Cons.IH [OF this] n show ?case by simp
qed

lemma prefix_within:
  assumes "prefix p (a @ z)" "length p \<le> length a"
  shows "prefix p a"
  using assms by (metis prefix_append prefix_length_le append_Nil2 prefix_order.antisym prefix_def le_antisym length_append add_diff_cancel_left' length_0_conv)

lemma substitute_around:
  assumes "\<And>k. k < length a + length m \<Longrightarrow> prefix p (drop k (a @ m @ b)) \<Longrightarrow> k + length p \<le> length a"
  shows "substitute p r (a @ m @ b) = substitute p r a @ m @ substitute p r b"
  using assms
proof (induction "length a" arbitrary: a rule: less_induct)
  case less
  show ?case
  proof (cases a)
    case Nil
    show ?thesis
    proof (cases "p = []")
      case True
      have "substitute [] r s = s" for s by (induction s) simp_all
      with True Nil show ?thesis by simp
    next
      case False
      have "\<not> prefix p (drop k m @ b)" if "k < length m" for k
      proof
        assume "prefix p (drop k m @ b)"
        with less.prems [of k] that Nil False show False by simp
      qed
      from substitute_skip [of m p b r, OF this] Nil show ?thesis by simp
    qed
  next
    case (Cons c a')
    show ?thesis
    proof (cases "p \<noteq> [] \<and> prefix p (a @ m @ b)")
      case True
      with less.prems [of 0] Cons have l: "length p \<le> length a" by simp
      with True have pa: "prefix p a" using prefix_within [of p a "m @ b"] by simp
      let ?a = "drop (length p) a"
      have sh: "length ?a < length a" using True Cons by simp
      have cond: "k + length p \<le> length ?a"
        if "k < length ?a + length m" "prefix p (drop k (?a @ m @ b))" for k
      proof -
        have e: "drop (k + length p) (a @ m @ b) = drop k (?a @ m @ b)"
          using l by (simp add: add.commute)
        have lt: "k + length p < length a + length m" using that(1) l by simp
        have "prefix p (drop (k + length p) (a @ m @ b))" using that(2) by (simp only: e)
        from less.prems [OF lt this] have "k + length p + length p \<le> length a" .
        then show ?thesis by simp
      qed
      from less.hyps [OF sh cond]
      have IH: "substitute p r (?a @ m @ b) = substitute p r ?a @ m @ substitute p r b" by simp
      have d: "drop (length p) (a @ m @ b) = ?a @ m @ b" using l by simp
      have s1: "substitute p r (a @ m @ b) = r @ substitute p r (drop (length p) (a @ m @ b))"
        using True Cons by simp
      have s2: "substitute p r a = r @ substitute p r ?a" using True pa Cons by simp
      show ?thesis by (simp only: s1 d IH s2 append_assoc)
    next
      case False
      then have n: "\<not> (p \<noteq> [] \<and> prefix p (c # a' @ m @ b))" using Cons by simp
      then have n': "\<not> (p \<noteq> [] \<and> prefix p (c # a'))" using Cons
        by (metis append_Cons prefix_prefix)
      have cond: "k + length p \<le> length a'"
        if "k < length a' + length m" "prefix p (drop k (a' @ m @ b))" for k
        using that less.prems [of "Suc k"] Cons by simp
      from less.hyps [of a', OF _ cond] Cons
      have "substitute p r (a' @ m @ b) = substitute p r a' @ m @ substitute p r b" by simp
      with n n' Cons show ?thesis by auto
    qed
  qed
qed

lemma replace_all_around:
  assumes "\<And>k. k < length a + length m \<Longrightarrow> prefix p (drop k (a @ m @ b)) \<Longrightarrow> k + length p \<le> length a"
  shows "\<exists>X. replace_all p repl pre (a @ m @ b) = X @ m @ replace_all p repl (pre @ a @ m) b"
  using assms
proof (induction "length a" arbitrary: a pre rule: less_induct)
  case less
  show ?case
  proof (cases a)
    case Nil
    have "replace_all p repl pre (m1 @ b) = m1 @ replace_all p repl (pre @ m1) b"
      if "\<And>k. k < length m1 \<Longrightarrow> \<not> (p \<noteq> [] \<and> prefix p (drop k m1 @ b))" for m1 pre
      using that
    proof (induction m1 arbitrary: pre)
      case Nil
      then show ?case by simp
    next
      case (Cons c m1)
      from Cons.prems [of 0] have n: "\<not> (p \<noteq> [] \<and> prefix p (c # m1 @ b))" by simp
      have "\<And>k. k < length m1 \<Longrightarrow> \<not> (p \<noteq> [] \<and> prefix p (drop k m1 @ b))"
        using Cons.prems [of "Suc k" for k] by simp
      from Cons.IH [OF this, of "pre @ [c]"] n show ?case by auto
    qed
    moreover have "\<not> (p \<noteq> [] \<and> prefix p (drop k m @ b))" if "k < length m" for k
    proof
      assume "p \<noteq> [] \<and> prefix p (drop k m @ b)"
      with less.prems [of k] that Nil show False by simp
    qed
    ultimately have "replace_all p repl pre (m @ b) = m @ replace_all p repl (pre @ m) b" by blast
    with Nil show ?thesis by simp
  next
    case (Cons c a')
    show ?thesis
    proof (cases "p \<noteq> [] \<and> prefix p (a @ m @ b)")
      case True
      with less.prems [of 0] Cons have l: "length p \<le> length a" by simp
      with True have pa: "prefix p a" using prefix_within [of p a "m @ b"] by simp
      then have ap: "a = p @ drop (length p) a" by (auto simp: prefix_def)
      let ?a = "drop (length p) a"
      have sh: "length ?a < length a" using True Cons by simp
      have cond: "k + length p \<le> length ?a"
        if "k < length ?a + length m" "prefix p (drop k (?a @ m @ b))" for k
      proof -
        have e: "drop (k + length p) (a @ m @ b) = drop k (?a @ m @ b)"
          using l by (simp add: add.commute)
        have lt: "k + length p < length a + length m" using that(1) l by simp
        have "prefix p (drop (k + length p) (a @ m @ b))" using that(2) by (simp only: e)
        from less.prems [OF lt this] have "k + length p + length p \<le> length a" .
        then show ?thesis by simp
      qed
      from less.hyps [OF sh cond, of "pre @ p"]
      obtain X where X: "replace_all p repl (pre @ p) (?a @ m @ b) = X @ m @ replace_all p repl (pre @ p @ ?a @ m) b"
        by auto
      have "replace_all p repl pre (a @ m @ b)
              = get_substitution p pre (drop (length p) (a @ m @ b)) repl
                @ replace_all p repl (pre @ p) (drop (length p) (a @ m @ b))"
        using True Cons by simp
      also have "drop (length p) (a @ m @ b) = ?a @ m @ b" using l by simp
      finally show ?thesis using X ap by (metis append_assoc)
    next
      case False
      then have n: "\<not> (p \<noteq> [] \<and> prefix p (c # a' @ m @ b))" using Cons by simp
      have cond: "k + length p \<le> length a'"
        if "k < length a' + length m" "prefix p (drop k (a' @ m @ b))" for k
        using that less.prems [of "Suc k"] Cons by simp
      from less.hyps [of a' "pre @ [c]", OF _ cond] Cons
      obtain X where "replace_all p repl (pre @ [c]) (a' @ m @ b) = X @ m @ replace_all p repl (pre @ c # a' @ m) b"
        by auto
      with n Cons show ?thesis by auto
    qed
  qed
qed

lemma prefix_beyond:
  assumes "prefix p (u @ c # x)" "c \<notin> set p"
  shows "prefix p u"
proof -
  from assms(1) have "prefix p u \<or> (\<exists>z. p = u @ z \<and> prefix z (c # x))"
    by (simp add: prefix_append)
  then show ?thesis
  proof
    assume "\<exists>z. p = u @ z \<and> prefix z (c # x)"
    then obtain z where z: "p = u @ z" "prefix z (c # x)" by blast
    show ?thesis
    proof (cases z)
      case Nil
      with z show ?thesis by simp
    next
      case (Cons d z')
      with z have "d = c" by simp
      with z Cons assms(2) show ?thesis by simp
    qed
  qed
qed

lemma token_protected:
  assumes p: "p = ''__dirname'' \<or> p = ''__filename''"
    and re: "prefix ''re'' m" and l: "last m = CHR '')''" and ns: "\<not> sublist p m"
    and k: "k < length a + length m" and pr: "prefix p (drop k (a @ m @ b))"
  shows "k + length p \<le> length a"
proof (rule ccontr)
  assume "\<not> k + length p \<le> length a"
  then have over: "length a < k + length p" by simp
  from re obtain m' where m: "m = CHR ''r'' # CHR ''e'' # m'" by (auto simp: prefix_def)
  from p have cp: "CHR '')'' \<notin> set p" by auto
  show False
  proof (cases "length a \<le> k")
    case True
    define j where "j = k - length a"
    from True k have j: "j < length m" by (simp add: j_def)
    from True pr k have "prefix p (drop j m @ b)" by (simp add: j_def)
    from j have ne: "drop j m \<noteq> []" by simp
    then have d0: "butlast (drop j m) @ [last (drop j m)] = drop j m"
      by (rule append_butlast_last_id)
    from j have lm: "last (drop j m) = last m" by simp
    from d0 [unfolded lm l] have d: "drop j m = butlast (drop j m) @ [CHR '')'']" by simp
    with \<open>prefix p (drop j m @ b)\<close> have "prefix p (butlast (drop j m) @ CHR '')'' # b)"
      by (metis append_Cons append_Nil append_assoc)
    from prefix_beyond [OF this cp] have "prefix p (butlast (drop j m))" .
    then have "prefix p (drop j m)" using d by (metis prefix_prefix)
    then obtain t where "drop j m = p @ t" by (auto simp: prefix_def)
    then have "m = take j m @ p @ t" by (metis append_take_drop_id)
    then have "sublist p m" unfolding sublist_def by blast
    with ns show False by simp
  next
    case False
    then have ka: "k < length a" by simp
    define u where "u = drop k a"
    from ka have une: "u \<noteq> []" by (simp add: u_def)
    from ka over have ul: "length u < length p" by (simp add: u_def)
    from ka pr have pu: "prefix p (u @ m @ b)" by (simp add: u_def)
    then have "prefix p u \<or> (\<exists>z. p = u @ z \<and> prefix z (m @ b))" by (simp add: prefix_append)
    moreover from ul have "\<not> prefix p u" by (auto dest: prefix_length_le)
    ultimately obtain z where z: "p = u @ z" "prefix z (m @ b)" by blast
    from z(1) ul have zne: "z \<noteq> []" by auto
    from z(2) zne m obtain z' where z': "z = CHR ''r'' # z'" by (cases z) auto
    from z(2) z' m have z2: "z' = [] \<or> (\<exists>z''. z' = CHR ''e'' # z'')" by (cases z') auto
    from p z(1) z' une z2 show False
      by (auto simp: append_eq_Cons_conv Cons_eq_append_conv)
  qed
qed

lemma scan_path_append: "fst (scan_path q s) @ snd (scan_path q s) = s"
  by (induction q s rule: scan_path.induct) (auto simp: Let_def split: prod.splits)

lemma match_require_shape:
  assumes "match_require s = Some (m, p, r)"
  shows "s = m @ r \<and> prefix ''re'' m \<and> last m = CHR '')''"
proof -
  from assms obtain s1 where s1: "strip_prefix ''require'' s = Some s1"
    by (auto simp: match_require_def split: option.splits)
  then have e1: "s = ''require'' @ s1"
    by (auto simp: strip_prefix_def prefix_def split: if_splits)
  from assms s1 obtain s2 where s2: "dropWhile is_space s1 = CHR ''('' # s2"
    by (auto simp: match_require_def split: list.splits if_splits)
  have e2: "s1 = takeWhile is_space s1 @ CHR ''('' # s2"
    using takeWhile_dropWhile_id [of is_space s1] s2 by simp
  from assms s1 s2 obtain q s3 where s3: "dropWhile is_space s2 = q # s3"
    by (auto simp: match_require_def split: list.splits if_splits)
  have e3: "s2 = takeWhile is_space s2 @ q # s3"
    using takeWhile_dropWhile_id [of is_space s2] s3 by simp
  from assms s1 s2 s3 obtain s5 where s5: "snd (scan_path q s3) = q # s5"
    by (auto simp: match_require_def Let_def split: list.splits if_splits prod.splits)
  have e4: "s3 = fst (scan_path q s3) @ q # s5"
    using scan_path_append [of q s3] s5 by simp
  from assms s1 s2 s3 s5 have s6: "dropWhile is_space s5 = CHR '')'' # r"
    by (auto simp: match_require_def Let_def split: list.splits if_splits prod.splits)
  have e5: "s5 = takeWhile is_space s5 @ CHR '')'' # r"
    using takeWhile_dropWhile_id [of is_space s5] s6 by simp
  from assms s1 s2 s3 s5 s6 have mm: "m = take (length s - length r) s"
    by (auto simp: match_require_def Let_def split: list.splits if_splits prod.splits)
  define mid where "mid = takeWhile is_space s1 @ CHR ''('' # takeWhile is_space s2 @ q
                     # fst (scan_path q s3) @ q # takeWhile is_space s5"
  have "s1 = mid @ CHR '')'' # r"
    unfolding mid_def
    by (subst e2, subst e3, subst e4, subst e5) simp
  with e1 have s: "s = (''require'' @ mid @ [CHR '')'']) @ r" by simp
  then have "length s - length r = length (''require'' @ mid @ [CHR '')''])" by simp
  with mm s have "m = ''require'' @ mid @ [CHR '')'']"
    by (metis append_eq_conv_conj)
  with s show ?thesis by simp
qed

lemma scan_requires_shape:
  "Call m name \<in> set (scan_requires s) \<Longrightarrow> prefix ''re'' m \<and> last m = CHR '')''"
proof (induction s rule: scan_requires.induct)
  case 1
  then show ?case by simp
next
  case (2 c cs)
  show ?case
  proof (cases "match_require (c # cs)")
    case None
    with 2 show ?thesis by simp
  next
    case (Some x)
    obtain m' p' r' where x: "x = (m', p', r')" by (cases x)
    from 2(2) [OF Some x [symmetric]] 2(3) Some x match_require_shape [of "c # cs" m' p' r']
    show ?thesis by auto
  qed
qed

lemma substitute_no_creation:
  assumes "\<And>k y. k < length w \<Longrightarrow> \<not> prefix (drop k w) (r @ y)"
  shows "prefix w (substitute p r s) \<Longrightarrow> prefix w s"
  using assms
proof (induction w arbitrary: s)
  case Nil
  then show ?case by simp
next
  case (Cons x w)
  have sh: "\<And>k y. k < length w \<Longrightarrow> \<not> prefix (drop k w) (r @ y)"
    using Cons.prems(2) [of "Suc k" for k] by simp
  show ?case
  proof (cases s)
    case Nil
    with Cons.prems(1) show ?thesis by simp
  next
    case (Cons c cs)
    show ?thesis
    proof (cases "p \<noteq> [] \<and> prefix p (c # cs)")
      case True
      with Cons.prems(1) Cons have "prefix (x # w) (r @ substitute p r (drop (length p) (c # cs)))"
        by simp
      with Cons.prems(2) [of 0] show ?thesis by simp
    next
      case False
      with Cons.prems(1) Cons have "x = c" "prefix w (substitute p r cs)" by auto
      with Cons.IH [OF this(2) sh] Cons show ?thesis by simp
    qed
  qed
qed

lemma substitute_both_sequential:
  assumes p2: "p2 \<noteq> []"
    and skip: "\<And>x. substitute p2 r2 (r1 @ x) = r1 @ substitute p2 r2 x"
    and over: "\<And>x. substitute p1 r1 (p2 @ x) = p2 @ substitute p1 r1 x"
    and nocreate: "\<And>x. prefix p2 (substitute p1 r1 x) \<Longrightarrow> prefix p2 x"
  shows "substitute p2 r2 (substitute p1 r1 s) = substitute_both p1 r1 p2 r2 s"
proof (induction "length s" arbitrary: s rule: less_induct)
  case less
  show ?case
  proof (cases s)
    case Nil
    then show ?thesis by simp
  next
    case (Cons c cs)
    show ?thesis
    proof (cases "p1 \<noteq> [] \<and> prefix p1 s")
      case True
      let ?x = "drop (length p1) s"
      from True Cons have l: "length ?x < length s" by simp
      have a: "substitute p1 r1 s = r1 @ substitute p1 r1 ?x" using True Cons by simp
      have b: "substitute_both p1 r1 p2 r2 s = r1 @ substitute_both p1 r1 p2 r2 ?x"
        using True Cons by simp
      show ?thesis by (simp only: a b skip less.hyps [OF l])
    next
      case A: False
      show ?thesis
      proof (cases "prefix p2 s")
        case True
        let ?x = "drop (length p2) s"
        from True have s: "s = p2 @ ?x" by (auto simp: prefix_def)
        from p2 Cons have l: "length ?x < length s" by simp
        have a: "substitute p1 r1 s = p2 @ substitute p1 r1 ?x"
          using over [of ?x] s by simp
        have b: "substitute_both p1 r1 p2 r2 s = r2 @ substitute_both p1 r1 p2 r2 ?x"
          using True A p2 Cons by auto
        show ?thesis by (simp only: a b substitute_prefix [OF p2] less.hyps [OF l])
      next
        case False
        from Cons have l: "length cs < length s" by simp
        have a: "substitute p1 r1 s = c # substitute p1 r1 cs" using A Cons by auto
        from nocreate [of s] False have "\<not> prefix p2 (c # substitute p1 r1 cs)"
          unfolding a by blast
        then have c: "substitute p2 r2 (c # substitute p1 r1 cs) = c # substitute p2 r2 (substitute p1 r1 cs)"
          by simp
        have b: "substitute_both p1 r1 p2 r2 s = c # substitute_both p1 r1 p2 r2 cs"
          using False A Cons by auto
        show ?thesis by (simp only: a b c less.hyps [OF l])
      qed
    qed
  qed
qed

lemma spec_fill_template_sequential:
  "substitute ''${path}'' f (substitute ''${id}'' ''0'' t) = spec_fill_template t 0 f"
proof -
  have sn: "show_nat 0 = ''0''" by code_simp
  have six: "k = 0 \<or> k = 1 \<or> k = 2 \<or> k = 3 \<or> k = 4 \<or> k = 5 \<or> k = 6" if "k < 7" for k :: nat
    using that by arith
  have skip: "substitute ''${path}'' f (''0'' @ x) = ''0'' @ substitute ''${path}'' f x" for x
    by simp
  have over: "substitute ''${id}'' ''0'' (''${path}'' @ x) = ''${path}'' @ substitute ''${id}'' ''0'' x" for x
    by simp
  have nc: "\<not> prefix (drop k ''${path}'') (''0'' @ y)" if "k < length ''${path}''" for k y
    using six [of k] that by auto
  have nocreate: "prefix ''${path}'' (substitute ''${id}'' ''0'' x) \<Longrightarrow> prefix ''${path}'' x" for x
    by (rule substitute_no_creation [OF nc])
  show ?thesis
    unfolding spec_fill_template_def sn
    by (rule substitute_both_sequential [OF _ skip over nocreate]) simp
qed

lemma sublist_drop: "prefix p (drop k a) \<Longrightarrow> sublist p a"
proof -
  assume "prefix p (drop k a)"
  then obtain t where "drop k a = p @ t" by (auto simp: prefix_def)
  then have "a = take k a @ p @ t" by (metis append_take_drop_id)
  then show ?thesis unfolding sublist_def by blast
qed

lemma substitute_skip_closed:
  assumes "\<not> sublist p a" "c \<notin> set p"
  shows "substitute p r (a @ c # x) = a @ c # substitute p r x"
proof -
  have "\<not> prefix p (drop k (a @ [c]) @ x)" if "k < length (a @ [c])" for k
  proof
    assume pr: "prefix p (drop k (a @ [c]) @ x)"
    from that have "drop k (a @ [c]) @ x = drop k a @ c # x" by simp
    with pr have "prefix p (drop k a @ c # x)" by simp
    from prefix_beyond [OF this assms(2)] have "prefix p (drop k a)" .
    with assms(1) show False by (auto dest: sublist_drop)
  qed
  from substitute_skip [of "a @ [c]" p x r, OF this] show ?thesis by simp
qed

lemma spec_rewrite_tokens_sequential:
  assumes "\<not> sublist ''__filename'' arg"
  shows "substitute ''__filename'' (''__getFilename('' @ arg @ '')'')
           (substitute ''__dirname'' (''__getDirname('' @ arg @ '')'') code)
         = spec_rewrite_tokens arg code"
proof -
  let ?rD = "''__getDirname('' @ arg @ '')''"
  let ?rF = "''__getFilename('' @ arg @ '')''"
  have ten: "k = 0 \<or> k = 1 \<or> k = 2 \<or> k = 3 \<or> k = 4 \<or> k = 5 \<or> k = 6 \<or> k = 7 \<or> k = 8 \<or> k = 9"
    if "k < 10" for k :: nat
    using that by arith
  have skip: "substitute ''__filename'' ?rF (?rD @ x) = ?rD @ substitute ''__filename'' ?rF x" for x
    using substitute_skip_closed [OF assms, of "CHR '')''" ?rF x] by simp
  have over: "substitute ''__dirname'' ?rD (''__filename'' @ x) = ''__filename'' @ substitute ''__dirname'' ?rD x" for x
    by simp
  have nc: "\<not> prefix (drop k ''__filename'') (?rD @ y)" if "k < length ''__filename''" for k y
    using ten [of k] that by auto
  have nocreate: "prefix ''__filename'' (substitute ''__dirname'' ?rD x) \<Longrightarrow> prefix ''__filename'' x" for x
    by (rule substitute_no_creation [OF nc])
  show ?thesis
    unfolding spec_rewrite_tokens_def
    by (rule substitute_both_sequential [OF _ skip over nocreate]) simp
qed

lemma replace_tokens_plain:
  assumes "rewrites_tokens options" "\<not> has_pattern (token_argument E options filePath)"
  shows "replace_tokens E options filePath code
         = substitute ''__filename'' (''__getFilename('' @ token_argument E options filePath @ '')'')
             (substitute ''__dirname'' (''__getDirname('' @ token_argument E options filePath @ '')'') code)"
proof -
  have a: "replace_tokens E options filePath code
         = js_replace ''__filename'' (''__getFilename('' @ token_argument E options filePath @ '')'')
             (js_replace ''__dirname'' (''__getDirname('' @ token_argument E options filePath @ '')'') code)"
    using assms(1) by (simp add: replace_tokens_def rewrites_tokens_def token_argument_def Let_def)
  show ?thesis
    unfolding a js_replace_def
    by (simp only: replace_all_plain [OF has_pattern_call(1) [OF assms(2)]]
          replace_all_plain [OF has_pattern_call(2) [OF assms(2)]])
qed


lemma replace_tokens_off:
  "\<not> rewrites_tokens options \<Longrightarrow> replace_tokens E options filePath code = code"
  by (auto simp: replace_tokens_def rewrites_tokens_def)

lemma replace_tokens_around:
  assumes re: "prefix ''re'' m" and l: "last m = CHR '')''"
    and tf: "\<not> rewrites_tokens options \<or> (\<not> sublist ''__dirname'' m \<and> \<not> sublist ''__filename'' m)"
  shows "\<exists>X Y. replace_tokens E options filePath (a @ m @ b) = X @ m @ Y
           \<and> (\<not> rewrites_tokens options \<or> \<not> has_pattern (token_argument E options filePath) \<longrightarrow>
                X = replace_tokens E options filePath a \<and> Y = replace_tokens E options filePath b)"
proof (cases "rewrites_tokens options")
  case False
  then show ?thesis by (simp add: replace_tokens_off)
next
  case True
  with tf have nd: "\<not> sublist ''__dirname'' m" and nf: "\<not> sublist ''__filename'' m" by simp_all
  let ?arg = "token_argument E options filePath"
  let ?rD = "''__getDirname('' @ ?arg @ '')''"
  let ?rF = "''__getFilename('' @ ?arg @ '')''"
  have pd: "k + length ''__dirname'' \<le> length a'"
    if "k < length a' + length m" "prefix ''__dirname'' (drop k (a' @ m @ b'))" for k a' b'
    using token_protected [OF _ re l nd that] by simp
  have pf: "k + length ''__filename'' \<le> length a'"
    if "k < length a' + length m" "prefix ''__filename'' (drop k (a' @ m @ b'))" for k a' b'
    using token_protected [OF _ re l nf that] by simp
  show ?thesis
  proof (cases "has_pattern ?arg")
    case False
    have 1: "substitute ''__dirname'' ?rD (a @ m @ b)
            = substitute ''__dirname'' ?rD a @ m @ substitute ''__dirname'' ?rD b"
      by (rule substitute_around [OF pd])
    have 2: "substitute ''__filename'' ?rF (substitute ''__dirname'' ?rD a @ m @ substitute ''__dirname'' ?rD b)
            = substitute ''__filename'' ?rF (substitute ''__dirname'' ?rD a) @ m
              @ substitute ''__filename'' ?rF (substitute ''__dirname'' ?rD b)"
      by (rule substitute_around [OF pf])
    have "replace_tokens E options filePath (a @ m @ b)
            = replace_tokens E options filePath a @ m @ replace_tokens E options filePath b"
      by (simp only: replace_tokens_plain [OF True False] 1 2)
    then show ?thesis by blast
  next
    case d: True
    from replace_all_around [of a m "''__dirname''" b ?rD "[]", OF pd [where a' = a and b' = b]]
    obtain X1 where X1: "replace_all ''__dirname'' ?rD [] (a @ m @ b)
                           = X1 @ m @ replace_all ''__dirname'' ?rD ([] @ a @ m) b"
      by blast
    from replace_all_around [of X1 m "''__filename''" "replace_all ''__dirname'' ?rD ([] @ a @ m) b" ?rF "[]",
           OF pf [where a' = X1 and b' = "replace_all ''__dirname'' ?rD ([] @ a @ m) b"]]
    obtain X2 where X2: "replace_all ''__filename'' ?rF [] (X1 @ m @ replace_all ''__dirname'' ?rD ([] @ a @ m) b)
                           = X2 @ m @ replace_all ''__filename'' ?rF ([] @ X1 @ m) (replace_all ''__dirname'' ?rD ([] @ a @ m) b)"
      by blast
    from True X1 X2 have "replace_tokens E options filePath (a @ m @ b)
            = X2 @ m @ replace_all ''__filename'' ?rF ([] @ X1 @ m) (replace_all ''__dirname'' ?rD ([] @ a @ m) b)"
      by (simp add: replace_tokens_def rewrites_tokens_def token_argument_def Let_def js_replace_def)
    with True d show ?thesis by blast
  qed
qed

lemma replace_tokens_spec:
  assumes "rewrites_tokens options" "\<not> has_pattern (token_argument E options filePath)"
    and "\<not> sublist ''__filename'' (token_argument E options filePath)"
  shows "replace_tokens E options filePath code = spec_rewrite_tokens (token_argument E options filePath) code"
  using replace_tokens_plain [OF assms(1,2)] spec_rewrite_tokens_sequential [OF assms(3)] by simp

lemma spec_fill_template_js_replace:
  assumes "\<not> has_pattern f"
  shows "js_replace ''${path}'' f (js_replace ''${id}'' (show_int 0) t) = spec_fill_template t 0 f"
proof -
  have z: "show_int 0 = ''0''" by code_simp
  have "js_replace ''${path}'' f (js_replace ''${id}'' (show_int 0) t)
          = substitute ''${path}'' f (substitute ''${id}'' (show_int 0) t)"
    unfolding js_replace_def
    by (simp only: replace_all_plain [OF assms] replace_all_plain [OF has_pattern_digit])
  then show ?thesis unfolding z by (simp only: spec_fill_template_sequential)
qed


subsection \<open>The state only grows\<close>

lemma extends_refl: "extends st st"
  by (simp add: extends_def)

lemma extends_trans:
  assumes "extends a b" "extends b c"
  shows "extends a c"
proof -
  from assms obtain n1 n2 where
    n1: "files b = files a @ n1" "distinct n1" "set n1 \<inter> set (files a) = {}"
        "\<forall>p \<in> set n1. \<not> is_excluded (opts a) p"
    and n2: "files c = files b @ n2" "distinct n2" "set n2 \<inter> set (files b) = {}"
        "\<forall>p \<in> set n2. \<not> is_excluded (opts b) p"
    unfolding extends_def by blast
  from assms have o: "opts b = opts a" "opts c = opts a" by (simp_all add: extends_def)
  have f: "files c = files a @ (n1 @ n2)" using n1 n2 by simp
  have d: "distinct (n1 @ n2)" using n1 n2 by auto
  have i: "set (n1 @ n2) \<inter> set (files a) = {}" using n1 n2 by auto
  have e: "\<forall>p \<in> set (n1 @ n2). \<not> is_excluded (opts a) p" using n1 n2 o by auto
  from assms obtain p1 p2 where p: "pushed b = pushed a @ p1" "pushed c = pushed b @ p2"
    unfolding extends_def prefix_def by blast
  with assms have "EOF \<notin> set p1" "EOF \<notin> set p2" by (simp_all add: extends_def)
  with p have pe: "EOF \<notin> set (drop (length (pushed a)) (pushed c))" by simp
  from assms f d i e pe o show ?thesis
    unfolding extends_def by (metis (no_types, lifting) order_trans prefix_order.order_trans)
qed

lemma replacer_extends: "extends st (snd (replacer E filePath m p st))"
  by (auto simp: replacer_def extends_def Let_def indexOf_neg_iff split: option.splits)

lemma replace_requires_extends: "extends st (snd (replace_requires E filePath segs st))"
proof (induction segs arbitrary: st)
  case Nil
  then show ?case by (simp add: extends_refl)
next
  case (Cons s segs)
  show ?case
  proof (cases s)
    case (Chr c)
    with Cons.IH [of st] show ?thesis by (auto split: prod.splits)
  next
    case (Call m p)
    obtain r st1 where r: "replacer E filePath m p st = (r, st1)" by force
    with replacer_extends [of st E filePath m p] have "extends st st1" by simp
    moreover have "extends st1 (snd (replace_requires E filePath segs st1))" by (rule Cons.IH)
    ultimately show ?thesis using Call r by (auto split: prod.splits intro: extends_trans)
  qed
qed


lemma replacer_frame:
  "scheduled (snd (replacer E filePath m name st)) = scheduled st
   \<and> pushed (snd (replacer E filePath m name st)) = pushed st
   \<and> fileIndex (snd (replacer E filePath m name st)) = fileIndex st
   \<and> headerWritten (snd (replacer E filePath m name st)) = headerWritten st"
  by (simp add: replacer_def Let_def split: option.splits)

lemma replace_requires_frame:
  "scheduled (snd (replace_requires E filePath segs st)) = scheduled st
   \<and> pushed (snd (replace_requires E filePath segs st)) = pushed st
   \<and> fileIndex (snd (replace_requires E filePath segs st)) = fileIndex st
   \<and> headerWritten (snd (replace_requires E filePath segs st)) = headerWritten st"
proof (induction E filePath segs st rule: replace_requires.induct)
  case (1 E filePath st)
  then show ?case by simp
next
  case (2 E filePath c segs st)
  then show ?case by (auto split: prod.splits)
next
  case (3 E filePath match modulePath segs st)
  obtain r st1 where r: "replacer E filePath match modulePath st = (r, st1)" by force
  with replacer_frame [of E filePath match modulePath st] 3 [of "(r, st1)" r st1]
  show ?case by (auto split: prod.splits)
qed

lemma push_extends: "c \<noteq> EOF \<Longrightarrow> extends st (snd (push E c st))"
  by (simp add: push_def extends_def)

lemma addFile_extends: "extends st (snd (addFile E filePath st))"
proof (cases "readFile E filePath")
  case None
  then show ?thesis by (simp add: addFile_def extends_def)
next
  case (Some code)
  define st1 where "st1 = st\<lparr>fileIndex := fileIndex st + 1\<rparr>"
  obtain code2 st2 where r: "replace_requires E filePath (scan_requires (strip_comments code)) st1 = (code2, st2)"
    by force
  have a: "extends st st1" by (simp add: st1_def extends_def)
  have b: "extends st1 st2" using replace_requires_extends [of st1 E filePath "scan_requires (strip_comments code)"] r by simp
  have c: "extends st2 (snd (addFile E filePath st))"
    using Some r by (simp add: addFile_def Let_def st1_def push_extends)
  from a b c show ?thesis by (blast intro: extends_trans)
qed

lemma write_files_induct [consumes 1, case_names finished suspended continued]:
  assumes run: "write_files E st = Some (b, st')"
    and finished: "\<And>st. \<not> fileIndex st < length (files st) \<Longrightarrow> P st True st"
    and suspended: "\<And>st st1. fileIndex st < length (files st) \<Longrightarrow>
          addFile E (files st ! fileIndex st) st = (False, st1) \<Longrightarrow> P st False st1"
    and continued: "\<And>st st1 b st'. fileIndex st < length (files st) \<Longrightarrow>
          addFile E (files st ! fileIndex st) st = (True, st1) \<Longrightarrow>
          write_files E st1 = Some (b, st') \<Longrightarrow> P st1 b st' \<Longrightarrow> P st b st'"
  shows "P st b st'"
proof -
  let ?Q = "\<lambda>E' st y. E' = E \<longrightarrow> write_files E st = Some y \<longrightarrow> P st (fst y) (snd y)"
  have "?Q E st (b, st')"
  proof (rule write_files.raw_induct [where P = ?Q, OF _ run])
    fix wf E' st y
    assume IH: "\<And>E' st y. wf E' st = Some y \<Longrightarrow> ?Q E' st y"
    assume eq: "(if fileIndex st < length (files st)
                 then case addFile E' (files st ! fileIndex st) st of
                      (go, st1) \<Rightarrow> if go then wf E' st1 else Some (False, st1)
                 else Some (True, st)) = Some y"
    show "?Q E' st y"
    proof (intro impI)
      assume E': "E' = E" and w: "write_files E st = Some y"
      show "P st (fst y) (snd y)"
      proof (cases "fileIndex st < length (files st)")
        case False
        with eq have "y = (True, st)" by simp
        with False show ?thesis by (simp add: finished)
      next
        case True
        obtain go st1 where a: "addFile E (files st ! fileIndex st) st = (go, st1)" by force
        show ?thesis
        proof (cases go)
          case False
          with eq a True E' have "y = (False, st1)" by simp
          with suspended [OF True] a False show ?thesis by simp
        next
          case go: True
          with eq a True E' have "wf E st1 = Some y" by simp
          moreover from w a True go have w1: "write_files E st1 = Some y"
            by (subst (asm) write_files.simps) simp
          ultimately have "P st1 (fst y) (snd y)" using IH [of E st1 y] by simp
          with continued [OF True, of st1 "fst y" "snd y"] a go w1 show ?thesis by simp
        qed
      qed
    qed
  qed
  with run show ?thesis by simp
qed

lemma write_files_extends: "write_files E st = Some (b, st') \<Longrightarrow> extends st st'"
proof (induction rule: write_files_induct)
  case (finished st)
  show ?case by (rule extends_refl)
next
  case (suspended st st1)
  with addFile_extends [of st E "files st ! fileIndex st"] show ?case by simp
next
  case (continued st st1 b st')
  with addFile_extends [of st E "files st ! fileIndex st"] show ?case
    by (auto intro: extends_trans)
qed


subsection \<open>Line comments\<close>

lemma slash_not_space: "\<not> is_space CHR ''/''"
  by (simp add: is_space_def)

lemma line_terminator_is_space: "is_line_terminator c \<Longrightarrow> is_space c"
  by (auto simp: is_space_def is_line_terminator_def)

lemma match_line_comment_Cons:
  "match_line_comment (c # cs) =
     (if is_line_terminator c \<and> take 2 (dropWhile is_space cs) = ''//''
      then Some (dropWhile (\<lambda>x. \<not> is_line_terminator x) (drop 2 (dropWhile is_space cs)))
      else None)"
  by (auto simp: match_line_comment_def is_line_terminator_def Let_def)

lemma dropWhile_until_terminator:
  assumes "rest = [] \<or> is_line_terminator (hd rest)"
  shows "dropWhile (\<lambda>x. \<not> is_line_terminator x) (t @ rest)
           = dropWhile (\<lambda>x. \<not> is_line_terminator x) t @ rest"
proof (cases "\<forall>x \<in> set t. \<not> is_line_terminator x")
  case True
  then have "dropWhile (\<lambda>x. \<not> is_line_terminator x) t = []" by simp
  moreover from True have "dropWhile (\<lambda>x. \<not> is_line_terminator x) (t @ rest)
      = dropWhile (\<lambda>x. \<not> is_line_terminator x) rest"
    by (simp add: dropWhile_append2)
  moreover have "dropWhile (\<lambda>x. \<not> is_line_terminator x) rest = rest"
    using assms by (cases rest) auto
  ultimately show ?thesis by simp
next
  case False
  then obtain x where "x \<in> set t" "\<not> \<not> is_line_terminator x" by blast
  then show ?thesis by (rule dropWhile_append1)
qed

lemma strip_comments_no_match:
  assumes "\<forall>i < length s. is_line_terminator (s ! i) \<longrightarrow>
             take 2 (dropWhile is_space (drop (Suc i) s)) \<noteq> ''//''"
  shows "strip_comments s = s"
  using assms
proof (induction s)
  case Nil
  then show ?case by simp
next
  case (Cons c cs)
  from Cons.prems [rule_format, of 0]
  have m: "match_line_comment (c # cs) = None" by (simp add: match_line_comment_Cons)
  have "\<forall>i < length cs. is_line_terminator (cs ! i) \<longrightarrow>
             take 2 (dropWhile is_space (drop (Suc i) cs)) \<noteq> ''//''"
  proof (intro allI impI)
    fix i assume "i < length cs" "is_line_terminator (cs ! i)"
    with Cons.prems [rule_format, of "Suc i"]
    show "take 2 (dropWhile is_space (drop (Suc i) cs)) \<noteq> ''//''" by simp
  qed
  then have "strip_comments cs = cs" by (rule Cons.IH)
  with m show ?case by simp
qed

lemma trailing_suffix:
  assumes "\<forall>c \<in> set (takeWhile is_space (rev (xs @ ys))). \<not> is_line_terminator c"
  shows "\<forall>c \<in> set (takeWhile is_space (rev ys)). \<not> is_line_terminator c"
proof (cases "\<forall>c \<in> set ys. is_space c")
  case True
  then have "takeWhile is_space (rev ys @ rev xs) = rev ys @ takeWhile is_space (rev xs)"
    by (intro takeWhile_append2) simp
  with assms True show ?thesis by (auto dest: set_takeWhileD)
next
  case False
  then obtain x where "x \<in> set (rev ys)" "\<not> is_space x" by auto
  then have "takeWhile is_space (rev ys @ rev xs) = takeWhile is_space (rev ys)"
    by (rule takeWhile_append1)
  with assms show ?thesis by simp
qed

lemma strip_comments_removes:
  assumes nl: "is_line_terminator nl"
    and ws: "\<forall>c \<in> set ws. is_space c"
    and body: "\<forall>c \<in> set body. \<not> is_line_terminator c"
    and rest: "rest = [] \<or> is_line_terminator (hd rest)"
  shows "(\<forall>c \<in> set (takeWhile is_space (rev pre)). \<not> is_line_terminator c) \<Longrightarrow>
         strip_comments (pre @ nl # ws @ ''//'' @ body @ rest) = strip_comments pre @ strip_comments rest"
proof (induction pre rule: strip_comments.induct)
  case 1
  have "dropWhile is_space (ws @ ''//'' @ body @ rest) = ''//'' @ body @ rest"
    using ws by (simp add: dropWhile_append2 slash_not_space)
  moreover have "dropWhile (\<lambda>x. \<not> is_line_terminator x) (body @ rest) = rest"
    using dropWhile_until_terminator [OF rest, of body] body by simp
  ultimately have "match_line_comment (nl # ws @ ''//'' @ body @ rest) = Some rest"
    using nl by (simp add: match_line_comment_Cons)
  then show ?case by simp
next
  case (2 c cs)
  let ?X = "nl # ws @ ''//'' @ body @ rest"
  have X: "?X = [] \<or> is_line_terminator (hd ?X)" using nl by simp
  show ?case
  proof (cases "match_line_comment (c # cs)")
    case (Some r)
    then have c: "is_line_terminator c" and t2: "take 2 (dropWhile is_space cs) = ''//''"
      and r: "r = dropWhile (\<lambda>x. \<not> is_line_terminator x) (drop 2 (dropWhile is_space cs))"
      by (auto simp: match_line_comment_Cons split: if_splits)
    from t2 obtain x where x: "x \<in> set cs" "\<not> is_space x"
      by (metis dropWhile_eq_Nil_conv list.distinct(1) take_Nil)
    then have d: "dropWhile is_space (cs @ ?X) = dropWhile is_space cs @ ?X"
      by (rule dropWhile_append1)
    from t2 have l2: "2 \<le> length (dropWhile is_space cs)"
      by (metis length_take min.cobounded1 length_Cons list.size(3) One_nat_def Suc_1 length_0_conv nat_le_linear take_all_iff list.distinct(1) not_less_eq_eq le_Suc_eq numeral_2_eq_2)
    have m: "match_line_comment (c # cs @ ?X) = Some (r @ ?X)"
      using c t2 l2 d r dropWhile_until_terminator [OF X, of "drop 2 (dropWhile is_space cs)"]
      by (simp add: match_line_comment_Cons)
    obtain pre0 where "c # cs = pre0 @ r"
      using r by (metis append.assoc append_Cons append_take_drop_id takeWhile_dropWhile_id)
    with 2(3) have "\<forall>c \<in> set (takeWhile is_space (rev r)). \<not> is_line_terminator c"
      using trailing_suffix [of pre0 r] by simp
    with 2(2) [OF Some] have "strip_comments (r @ ?X) = strip_comments r @ strip_comments rest" .
    with Some m show ?thesis by simp
  next
    case None
    have tr: "\<forall>c \<in> set (takeWhile is_space (rev cs)). \<not> is_line_terminator c"
      using 2(3) trailing_suffix [of "[c]" cs] by simp
    have m: "match_line_comment (c # cs @ ?X) = None"
    proof (cases "is_line_terminator c")
      case False
      then show ?thesis by (simp add: match_line_comment_Cons)
    next
      case True
      have "\<not> (\<forall>x \<in> set cs. is_space x)"
      proof
        assume a: "\<forall>x \<in> set cs. is_space x"
        with True have "\<forall>x \<in> set (rev (c # cs)). is_space x"
          by (auto simp: line_terminator_is_space)
        then have "takeWhile is_space (rev (c # cs)) = rev (c # cs)"
          by (metis takeWhile_eq_all_conv)
        with 2(3) have "\<forall>x \<in> set (rev (c # cs)). \<not> is_line_terminator x"
          by (simp only:)
        with True show False by simp
      qed
      then obtain x where x: "x \<in> set cs" "\<not> is_space x" by blast
      then have d: "dropWhile is_space (cs @ ?X) = dropWhile is_space cs @ ?X"
        by (rule dropWhile_append1)
      from x have ne: "dropWhile is_space cs \<noteq> []" by (auto simp: dropWhile_eq_Nil_conv)
      from None True have t2: "take 2 (dropWhile is_space cs) \<noteq> ''//''"
        by (auto simp: match_line_comment_Cons split: if_splits)
      have "take 2 (dropWhile is_space cs @ ?X) \<noteq> ''//''"
      proof (cases "dropWhile is_space cs")
        case Nil
        with ne show ?thesis by simp
      next
        case (Cons a as)
        show ?thesis
        proof (cases as)
          case Nil
          with Cons nl show ?thesis by (auto simp: is_line_terminator_def)
        next
          case (Cons b bs)
          with \<open>dropWhile is_space cs = a # as\<close> t2 show ?thesis by simp
        qed
      qed
      with d show ?thesis by (simp add: match_line_comment_Cons)
    qed
    from 2(1) [OF None tr] have "strip_comments (cs @ ?X) = strip_comments cs @ strip_comments rest" .
    with None m show ?thesis by simp
  qed
qed



text \<open>
  C5, amended. The expression needs a line terminator in front of a comment. A run made
  of a line terminator, white space, \<open>//\<close> and the rest of that line is removed, the line
  terminator with it, and the texts before and behind it are stripped on their own (for
  a text before it that does not end in white space holding a line terminator, which
  would belong to the run). A text in which no line terminator is followed by white
  space and \<open>//\<close> is returned as it is; so is a text without a line terminator, a comment
  on the first line of the file included.
\<close>

theorem strip_comments_spec:
  "(is_line_terminator nl \<and> (\<forall>c \<in> set ws. is_space c) \<and> (\<forall>c \<in> set body. \<not> is_line_terminator c)
      \<and> (rest = [] \<or> is_line_terminator (hd rest))
      \<and> (\<forall>c \<in> set (takeWhile is_space (rev pre)). \<not> is_line_terminator c)
    \<longrightarrow> strip_comments (pre @ nl # ws @ ''//'' @ body @ rest)
          = strip_comments pre @ strip_comments rest)
   \<and> ((\<forall>i < length s. is_line_terminator (s ! i) \<longrightarrow>
          take 2 (dropWhile is_space (drop (Suc i) s)) \<noteq> ''//'')
       \<longrightarrow> strip_comments s = s)
   \<and> ((\<forall>c \<in> set s. \<not> is_line_terminator c) \<longrightarrow> strip_comments s = s)"
proof (intro conjI impI)
  assume "is_line_terminator nl \<and> (\<forall>c \<in> set ws. is_space c) \<and> (\<forall>c \<in> set body. \<not> is_line_terminator c)
      \<and> (rest = [] \<or> is_line_terminator (hd rest))
      \<and> (\<forall>c \<in> set (takeWhile is_space (rev pre)). \<not> is_line_terminator c)"
  then show "strip_comments (pre @ nl # ws @ ''//'' @ body @ rest)
          = strip_comments pre @ strip_comments rest"
    using strip_comments_removes [of nl ws body rest pre] by blast
next
  assume "\<forall>i < length s. is_line_terminator (s ! i) \<longrightarrow>
          take 2 (dropWhile is_space (drop (Suc i) s)) \<noteq> ''//''"
  then show "strip_comments s = s" by (rule strip_comments_no_match)
next
  assume "\<forall>c \<in> set s. \<not> is_line_terminator c"
  then have "\<forall>i < length s. is_line_terminator (s ! i) \<longrightarrow>
          take 2 (dropWhile is_space (drop (Suc i) s)) \<noteq> ''//''"
    by simp
  then show "strip_comments s = s" by (rule strip_comments_no_match)
qed

theorem strip_comments_spec_witness:
  "is_line_terminator LF \<and> rev ''a;'' = '';a'' \<and> \<not> is_space CHR '';''
   \<and> strip_comments (''a;'' @ LF # ''  '' @ ''//'' @ '' c'' @ LF # ''b'') = ''a;'' @ LF # ''b''
   \<and> strip_comments ''x = 1; // c'' = ''x = 1; // c''"
proof -
  have h1: "is_line_terminator LF" by (simp add: is_line_terminator_def)
  have h2: "\<forall>c \<in> set ''  ''. is_space c" by (simp add: is_space_def)
  have h3: "\<forall>c \<in> set '' c''. \<not> is_line_terminator c" by (simp add: is_line_terminator_def)
  have h4: "LF # ''b'' = [] \<or> is_line_terminator (hd (LF # ''b''))" by (simp add: is_line_terminator_def)
  have r: "rev ''a;'' = '';a''" and sp: "\<not> is_space CHR '';''" by (simp_all add: is_space_def)
  then have h5: "\<forall>c \<in> set (takeWhile is_space (rev ''a;'')). \<not> is_line_terminator c" by simp
  have h6: "\<forall>c \<in> set ''x = 1; // c''. \<not> is_line_terminator c" by (simp add: is_line_terminator_def)
  have e1: "strip_comments ''a;'' = ''a;''" "strip_comments (LF # ''b'') = LF # ''b''" by code_simp+
  from strip_comments_spec [of LF "''  ''" "'' c''" "LF # ''b''" "''a;''" "''x = 1; // c''"]
       h1 h2 h3 h4 h5 h6 e1 r sp
  show ?thesis by simp
qed

theorem first_line_comment_counterexample:
  "strip_comments ''// c'' = ''// c'' \<and> strip_comments (''a'' @ LF # ''// c'') = ''a''"
  by code_simp

subsection \<open>The file list\<close>

lemma extends_appended: "extends st st' \<Longrightarrow> appended st st'"
  by (auto simp: extends_def appended_def)

lemma appended_refl: "appended st st"
  by (simp add: appended_def)

lemma appended_trans:
  assumes "appended a b" "appended b c"
  shows "appended a c"
proof -
  from assms obtain n1 n2 where
    n1: "files b = files a @ n1" "distinct n1" "set n1 \<inter> set (files a) = {}"
        "\<forall>p \<in> set n1. \<not> is_excluded (opts a) p"
    and n2: "files c = files b @ n2" "distinct n2" "set n2 \<inter> set (files b) = {}"
        "\<forall>p \<in> set n2. \<not> is_excluded (opts b) p"
    unfolding appended_def by blast
  from assms have o: "opts b = opts a" "opts c = opts a" by (simp_all add: appended_def)
  have "files c = files a @ (n1 @ n2)" using n1 n2 by simp
  moreover have "distinct (n1 @ n2)" using n1 n2 by auto
  moreover have "set (n1 @ n2) \<inter> set (files a) = {}" using n1 n2 by auto
  moreover have "\<forall>p \<in> set (n1 @ n2). \<not> is_excluded (opts a) p" using n1 n2 o by auto
  ultimately show ?thesis using o unfolding appended_def by blast
qed

lemma continueProcessing_appended:
  assumes "continueProcessing E st = Some st'"
  shows "appended st st'"
proof -
  define go where "go = (if \<not> headerWritten st then fst (push E (Data (HEADER E)) (st\<lparr>headerWritten := True\<rparr>)) else True)"
  define st1 where "st1 = (if \<not> headerWritten st then snd (push E (Data (HEADER E)) (st\<lparr>headerWritten := True\<rparr>)) else st)"
  have e1: "appended st st1" by (simp add: st1_def appended_def push_def)
  show ?thesis
  proof (cases go)
    case False
    with assms have "st' = st1" by (auto simp: continueProcessing_def go_def st1_def split: if_splits prod.splits)
    with e1 show ?thesis by simp
  next
    case True
    with assms obtain b st2 where w: "write_files E st1 = Some (b, st2)"
      by (auto simp: continueProcessing_def go_def st1_def Let_def split: if_splits prod.splits option.splits)
    then have e2: "appended st1 st2" by (intro extends_appended write_files_extends)
    from assms True w have "files st' = files st2 \<and> opts st' = opts st2"
      by (auto simp: continueProcessing_def go_def st1_def Let_def push_def split: if_splits prod.splits option.splits)
    then have "appended st2 st'" by (simp add: appended_def)
    with e1 e2 show ?thesis by (blast intro: appended_trans)
  qed
qed

lemma reads_appended: "reads n E st = Some st' \<Longrightarrow> appended st st'"
proof (induction n arbitrary: st)
  case 0
  then show ?case by (simp add: appended_refl)
next
  case (Suc n)
  show ?case
  proof (cases "ended st")
    case True
    with Suc.prems show ?thesis by (simp add: appended_refl)
  next
    case False
    with Suc.prems obtain st1 where r: "read E st = Some st1" "reads n E st1 = Some st'"
      by (auto split: option.splits)
    from r(1) have "appended st st1" by (simp add: read_def continueProcessing_appended)
    moreover from r(2) have "appended st1 st'" by (rule Suc.IH)
    ultimately show ?thesis by (rule appended_trans)
  qed
qed

lemma replacer_lookup:
  assumes "resolves_to E filePath name st p"
  shows "replacer E filePath m name st =
           (if p \<in> set (files st)
            then (require_call (indexOf (files st) p) (indexOf (files st) filePath), st)
            else if is_excluded (opts st) p then (m, st)
            else (require_call (int (length (files st))) (indexOf (files st @ [p]) filePath),
                  st\<lparr>files := files st @ [p]\<rparr>))"
  using assms indexOf_neg_iff [of "files st" p]
  by (auto simp: resolves_to_def replacer_def Let_def)


text \<open>
  C1. In every state a run reaches from the constructor, the entry path has identity 0,
  the file list has no path twice, and the identity of a path is its position; whatever
  the run does from there, the list it has is a prefix of the list it gets. When the
  replacer looks a resolved path up, a path in the list gets the identity it has and the
  list stays as it is, for whatever file refers to it; a path not in the list (and not
  excluded) is put at the end and gets the next identity, the length of the list before.
\<close>

theorem file_list_identity_order:
  assumes "reads n E (constructor E entryModulePath options) = Some st"
  shows "indexOf (files st) entryModulePath = 0
       \<and> distinct (files st)
       \<and> (\<forall>i < length (files st). indexOf (files st) (files st ! i) = int i)
       \<and> (\<forall>k st'. reads k E st = Some st' \<longrightarrow> prefix (files st) (files st'))
       \<and> (\<forall>s filePath m name p. resolves_to E filePath name s p \<longrightarrow>
            (p \<in> set (files s) \<longrightarrow>
               replacer E filePath m name s
                 = (require_call (indexOf (files s) p) (indexOf (files s) filePath), s))
          \<and> (p \<notin> set (files s) \<and> \<not> is_excluded (opts s) p \<longrightarrow>
               replacer E filePath m name s
                 = (require_call (int (length (files s))) (indexOf (files s @ [p]) filePath),
                    s\<lparr>files := files s @ [p]\<rparr>)
               \<and> indexOf (files s @ [p]) p = int (length (files s))))"
proof -
  from assms have "appended (constructor E entryModulePath options) st" by (rule reads_appended)
  then obtain new where new: "files st = entryModulePath # new" "distinct new" "entryModulePath \<notin> set new"
    by (auto simp: appended_def constructor_def)
  then have d: "distinct (files st)" by simp
  have 1: "indexOf (files st) entryModulePath = 0" using new by simp
  have 3: "\<forall>i < length (files st). indexOf (files st) (files st ! i) = int i"
    using d by (simp add: indexOf_nth)
  have 4: "\<forall>k st'. reads k E st = Some st' \<longrightarrow> prefix (files st) (files st')"
    using reads_appended by (fastforce simp: appended_def)
  have 5: "\<forall>s filePath m name p. resolves_to E filePath name s p \<longrightarrow>
            (p \<in> set (files s) \<longrightarrow>
               replacer E filePath m name s
                 = (require_call (indexOf (files s) p) (indexOf (files s) filePath), s))
          \<and> (p \<notin> set (files s) \<and> \<not> is_excluded (opts s) p \<longrightarrow>
               replacer E filePath m name s
                 = (require_call (int (length (files s))) (indexOf (files s @ [p]) filePath),
                    s\<lparr>files := files s @ [p]\<rparr>)
               \<and> indexOf (files s @ [p]) p = int (length (files s)))"
    by (simp add: replacer_lookup indexOf_append_new)
  from 1 d 3 4 5 show ?thesis by blast
qed


theorem file_list_identity_order_witness:
  "\<exists>st. reads 1 sample_env (constructor sample_env ''/p/a.js'' sample_options) = Some st
      \<and> files st = [''/p/a.js'', ''/p/b.js'']
      \<and> indexOf (files st) ''/p/a.js'' = 0
      \<and> distinct (files st)
      \<and> indexOf (files st) (files st ! 1) = 1
      \<and> resolves_to sample_env ''/p/a.js'' ''./b'' (constructor sample_env ''/p/a.js'' sample_options) ''/p/b.js''
      \<and> replacer sample_env ''/p/a.js'' ''require('./b')'' ''./b'' (constructor sample_env ''/p/a.js'' sample_options)
           = (''__require(1,0)'', (constructor sample_env ''/p/a.js'' sample_options)\<lparr>files := [''/p/a.js'', ''/p/b.js'']\<rparr>)
      \<and> resolves_to sample_env ''/p/b.js'' ''./b'' st ''/p/b.js''
      \<and> replacer sample_env ''/p/b.js'' ''require('./b')'' ''./b'' st = (''__require(1,1)'', st)"
proof -
  let ?c = "constructor sample_env ''/p/a.js'' sample_options"
  have "reads 1 sample_env ?c \<noteq> None" by code_simp
  then obtain st where st: "reads 1 sample_env ?c = Some st" by blast
  have "map_option (\<lambda>s. (files s, opts s)) (reads 1 sample_env ?c)
        = Some ([''/p/a.js'', ''/p/b.js''], sample_options)"
    by code_simp
  with st have f: "files st = [''/p/a.js'', ''/p/b.js'']" and o: "opts st = sample_options" by simp_all
  have r1: "resolves_to sample_env ''/p/a.js'' ''./b'' ?c ''/p/b.js''" by code_simp
  have r2: "resolves_to sample_env ''/p/b.js'' ''./b'' st ''/p/b.js''"
    unfolding resolves_to_def o by code_simp
  have x: "\<not> is_excluded (opts ?c) ''/p/b.js''" by code_simp
  have fc: "files ?c = [''/p/a.js'']" by (simp add: constructor_def)
  have rc: "require_call 1 0 = ''__require(1,0)''" "require_call 1 1 = ''__require(1,1)''" by code_simp+
  note t = file_list_identity_order [OF st]
  from t have a: "indexOf (files st) ''/p/a.js'' = 0" "distinct (files st)" by blast+
  from t f have b: "indexOf (files st) (files st ! 1) = 1" by simp
  note R = t [THEN conjunct2, THEN conjunct2, THEN conjunct2, THEN conjunct2, rule_format]
  have nin: "''/p/b.js'' \<notin> set (files ?c) \<and> \<not> is_excluded (opts ?c) ''/p/b.js''"
    using x fc by simp
  from R [OF r1, THEN conjunct2, rule_format, OF nin, THEN conjunct1]
  have c: "replacer sample_env ''/p/a.js'' ''require('./b')'' ''./b'' ?c
           = (require_call (int (length (files ?c))) (indexOf (files ?c @ [''/p/b.js'']) ''/p/a.js''),
              ?c\<lparr>files := files ?c @ [''/p/b.js'']\<rparr>)" .
  have "''/p/b.js'' \<in> set (files st)" using f by simp
  from R [OF r2, THEN conjunct1, rule_format, OF this]
  have d: "replacer sample_env ''/p/b.js'' ''require('./b')'' ''./b'' st
           = (require_call (indexOf (files st) ''/p/b.js'') (indexOf (files st) ''/p/b.js''), st)" .
  from st f a b r1 r2 c d fc rc show ?thesis by simp
qed



subsection \<open>Call sites in the emitted text\<close>

lemma replace_requires_append:
  "replace_requires E f (xs @ ys) st =
     (case replace_requires E f xs st of
        (outA, st1) \<Rightarrow> (case replace_requires E f ys st1 of (outB, st2) \<Rightarrow> (outA @ outB, st2)))"
proof (induction xs arbitrary: st)
  case Nil
  then show ?case by (simp split: prod.splits)
next
  case (Cons s xs)
  show ?case
  proof (cases s)
    case (Chr c)
    with Cons.IH [of st] show ?thesis by (simp split: prod.splits)
  next
    case (Call m p)
    obtain r st1 where r: "replacer E f m p st = (r, st1)" by force
    with Cons.IH [of st1] Call show ?thesis by (simp split: prod.splits)
  qed
qed

lemma addFile_pushes:
  assumes rd: "readFile E f = Some raw"
    and rr: "replace_requires E f (scan_requires (strip_comments raw)) (st\<lparr>fileIndex := fileIndex st + 1\<rparr>)
               = (code2, st2)"
  shows "snd (addFile E f st)
           = st2\<lparr>pushed := pushed st @ [Data (file_header E (files st2) f
                                @ (if path_extname E f = ''.json'' then ''module.exports = '' else [])
                                @ replace_tokens E (opts st) f code2
                                @ file_footer E (files st2) f)]\<rparr>"
proof -
  from replace_requires_frame [of E f "scan_requires (strip_comments raw)" "st\<lparr>fileIndex := fileIndex st + 1\<rparr>"] rr
  have p: "pushed st2 = pushed st" by simp
  from replace_requires_extends [of "st\<lparr>fileIndex := fileIndex st + 1\<rparr>" E f "scan_requires (strip_comments raw)"] rr
  have o: "opts st2 = opts st" by (simp add: extends_def)
  from rd rr p o show ?thesis by (simp add: addFile_def Let_def push_def)
qed

lemma call_site_kept:
  assumes rd: "readFile E f = Some raw"
    and sc: "scan_requires (strip_comments raw) = segsA @ Call m name # segsB"
    and A: "replace_requires E f segsA (st\<lparr>fileIndex := fileIndex st + 1\<rparr>) = (outA, st1)"
    and R: "fst (replacer E f m name st1) = m"
    and B: "replace_requires E f segsB (snd (replacer E f m name st1)) = (outB, st2)"
    and tf: "\<not> rewrites_tokens (opts st) \<or> (\<not> sublist ''__dirname'' m \<and> \<not> sublist ''__filename'' m)"
  shows "\<exists>X Y. pushed (snd (addFile E f st))
                 = pushed st @ [Data (file_header E (files st2) f
                                      @ (if path_extname E f = ''.json'' then ''module.exports = '' else [])
                                      @ X @ m @ Y
                                      @ file_footer E (files st2) f)]
           \<and> (\<not> rewrites_tokens (opts st) \<or> \<not> has_pattern (token_argument E (opts st) f) \<longrightarrow>
                X = replace_tokens E (opts st) f outA \<and> Y = replace_tokens E (opts st) f outB)"
proof -
  have "Call m name \<in> set (scan_requires (strip_comments raw))" using sc by simp
  from scan_requires_shape [OF this] have re: "prefix ''re'' m" and l: "last m = CHR '')''" by simp_all
  obtain st1' where r: "replacer E f m name st1 = (m, st1')" using R by (cases "replacer E f m name st1") simp
  with B have B': "replace_requires E f segsB st1' = (outB, st2)" by simp
  have rr: "replace_requires E f (scan_requires (strip_comments raw)) (st\<lparr>fileIndex := fileIndex st + 1\<rparr>)
              = (outA @ m @ outB, st2)"
    unfolding sc using A r B' by (simp add: replace_requires_append)
  from replace_tokens_around [OF re l tf, of E f outA outB]
  obtain X Y where XY: "replace_tokens E (opts st) f (outA @ m @ outB) = X @ m @ Y"
    "\<not> rewrites_tokens (opts st) \<or> \<not> has_pattern (token_argument E (opts st) f) \<longrightarrow>
                X = replace_tokens E (opts st) f outA \<and> Y = replace_tokens E (opts st) f outB"
    by blast
  from addFile_pushes [OF rd rr] XY(1)
  have "pushed (snd (addFile E f st))
                 = pushed st @ [Data (file_header E (files st2) f
                                      @ (if path_extname E f = ''.json'' then ''module.exports = '' else [])
                                      @ X @ m @ Y
                                      @ file_footer E (files st2) f)]"
    by simp
  with XY(2) show ?thesis by blast
qed



subsection \<open>Excluded files\<close>









subsection \<open>The entry path\<close>

text \<open>
  C10, amended. The constructor stores the entry path as it is given. The lookup of the
  replacer compares paths as texts: a resolved path that is not in the list as a text, be
  it the absolute path of the entry file, is put at the end of the list and gets an
  identity that is not the identity 0 of the entry path, unless it is in the exclude list:
  then the call site is returned as it was matched and the state is left as it was. Once
  it is in the list, a call site that resolves to it gets the identity it has there.
\<close>

theorem entry_path_verbatim:
  assumes "resolves_to E filePath name s p"
    and "files s = entryModulePath # rest"
    and "p \<noteq> entryModulePath"
  shows "files (constructor E entryModulePath options) = [entryModulePath]
       \<and> indexOf (files s) entryModulePath = 0
       \<and> (p \<notin> set (files s) \<and> \<not> is_excluded (opts s) p \<longrightarrow>
            replacer E filePath m name s
              = (require_call (int (length (files s))) (indexOf (files s @ [p]) filePath),
                 s\<lparr>files := files s @ [p]\<rparr>)
            \<and> indexOf (files s @ [p]) entryModulePath = 0
            \<and> indexOf (files s @ [p]) p = int (length (files s))
            \<and> 0 < length (files s))
       \<and> (p \<notin> set (files s) \<and> is_excluded (opts s) p \<longrightarrow> replacer E filePath m name s = (m, s))
       \<and> (p \<in> set (files s) \<longrightarrow>
            replacer E filePath m name s
              = (require_call (indexOf (files s) p) (indexOf (files s) filePath), s)
            \<and> 0 < indexOf (files s) p)"
proof -
  have e0: "indexOf (files s) entryModulePath = 0" using assms(2) by simp
  have a0: "indexOf (files s @ [p]) entryModulePath = 0" using assms(2) by simp
  have l: "0 < length (files s)" using assms(2) by simp
  have c: "files (constructor E entryModulePath options) = [entryModulePath]"
    by (simp add: constructor_def)
  have n: "indexOf (files s @ [p]) p = int (length (files s))" if "p \<notin> set (files s)"
    using that by (rule indexOf_append_new)
  have i: "0 < indexOf (files s) p" if "p \<in> set (files s)"
  proof -
    from that have "\<not> indexOf (files s) p < 0" by (simp add: indexOf_neg_iff)
    moreover from that assms(2,3) have "p \<in> set rest" by auto
    then have "\<not> indexOf rest p < 0" by (simp add: indexOf_neg_iff)
    ultimately show ?thesis using assms(2,3) by (auto simp: Let_def)
  qed
  from e0 a0 l c n i replacer_lookup [OF assms(1), of m] show ?thesis by simp
qed

theorem entry_path_verbatim_witness:
  "resolves_to relative_entry_env ''a.js'' ''./a''
      (constructor relative_entry_env ''a.js'' sample_options) ''/p/a.js''
   \<and> files (constructor relative_entry_env ''a.js'' sample_options) = [''a.js'']
   \<and> ''/p/a.js'' \<noteq> ''a.js''
   \<and> ''/p/a.js'' \<notin> set (files (constructor relative_entry_env ''a.js'' sample_options))
   \<and> \<not> is_excluded (opts (constructor relative_entry_env ''a.js'' sample_options)) ''/p/a.js''
   \<and> replacer relative_entry_env ''a.js'' ''require('./a')'' ''./a''
         (constructor relative_entry_env ''a.js'' sample_options)
       = (''__require(1,0)'',
          (constructor relative_entry_env ''a.js'' sample_options)\<lparr>files := [''a.js'', ''/p/a.js'']\<rparr>)
   \<and> map_option (\<lambda>st. (files st, emitted st))
         (reads 1 relative_entry_env (constructor relative_entry_env ''a.js'' sample_options))
       = Some ([''a.js'', ''/p/a.js''],
               ''H;<0:a.js>x=__require(1,0);</0><1:/p/a.js>x=__require(1,1);</1>;F'')
   \<and> resolves_to relative_entry_env ''a.js'' ''./a''
      (constructor relative_entry_env ''a.js'' (sample_options\<lparr>excludeFiles := Some [''/p/a.js'']\<rparr>)) ''/p/a.js''
   \<and> is_excluded (opts (constructor relative_entry_env ''a.js''
          (sample_options\<lparr>excludeFiles := Some [''/p/a.js'']\<rparr>))) ''/p/a.js''
   \<and> replacer relative_entry_env ''a.js'' ''require('./a')'' ''./a''
         (constructor relative_entry_env ''a.js'' (sample_options\<lparr>excludeFiles := Some [''/p/a.js'']\<rparr>))
       = (''require('./a')'',
          constructor relative_entry_env ''a.js'' (sample_options\<lparr>excludeFiles := Some [''/p/a.js'']\<rparr>))
   \<and> ''/p/a.js'' \<in> set (files ((constructor relative_entry_env ''a.js'' sample_options)
                                   \<lparr>files := [''a.js'', ''/p/a.js'']\<rparr>))
   \<and> replacer relative_entry_env ''/p/a.js'' ''require('./a')'' ''./a''
         ((constructor relative_entry_env ''a.js'' sample_options)\<lparr>files := [''a.js'', ''/p/a.js'']\<rparr>)
       = (''__require(1,1)'',
          (constructor relative_entry_env ''a.js'' sample_options)\<lparr>files := [''a.js'', ''/p/a.js'']\<rparr>)"
proof -
  let ?c = "constructor relative_entry_env ''a.js'' sample_options"
  let ?x = "constructor relative_entry_env ''a.js'' (sample_options\<lparr>excludeFiles := Some [''/p/a.js'']\<rparr>)"
  let ?d = "?c\<lparr>files := [''a.js'', ''/p/a.js'']\<rparr>"
  have h1: "resolves_to relative_entry_env ''a.js'' ''./a'' ?c ''/p/a.js''" by code_simp
  have h2: "files ?c = ''a.js'' # []" by (simp add: constructor_def)
  have ne: "''/p/a.js'' \<noteq> ''a.js''" by simp
  have h3: "''/p/a.js'' \<notin> set (files ?c)" by (simp add: constructor_def)
  have h4: "\<not> is_excluded (opts ?c) ''/p/a.js''" by code_simp
  have rc: "require_call 1 0 = ''__require(1,0)''" "require_call 1 1 = ''__require(1,1)''" by code_simp+
  have run: "map_option (\<lambda>st. (files st, emitted st)) (reads 1 relative_entry_env ?c)
       = Some ([''a.js'', ''/p/a.js''],
               ''H;<0:a.js>x=__require(1,0);</0><1:/p/a.js>x=__require(1,1);</1>;F'')"
    by code_simp
  have x1: "resolves_to relative_entry_env ''a.js'' ''./a'' ?x ''/p/a.js''" by code_simp
  have x2: "files ?x = ''a.js'' # []" by (simp add: constructor_def)
  have x3: "''/p/a.js'' \<notin> set (files ?x)" by (simp add: constructor_def)
  have x4: "is_excluded (opts ?x) ''/p/a.js''" by code_simp
  have d1: "resolves_to relative_entry_env ''/p/a.js'' ''./a'' ?d ''/p/a.js''" by code_simp
  have d2: "files ?d = ''a.js'' # [''/p/a.js'']" by simp
  have d3: "''/p/a.js'' \<in> set (files ?d)" by simp
  from entry_path_verbatim [OF h1 h2 ne, where options = sample_options and m = "''require('./a')''"]
       h2 h3 h4 rc
  have a: "replacer relative_entry_env ''a.js'' ''require('./a')'' ''./a'' ?c
       = (''__require(1,0)'', ?c\<lparr>files := [''a.js'', ''/p/a.js'']\<rparr>)"
    by simp
  from entry_path_verbatim [OF x1 x2 ne, where options = sample_options and m = "''require('./a')''"] x3 x4
  have b: "replacer relative_entry_env ''a.js'' ''require('./a')'' ''./a'' ?x = (''require('./a')'', ?x)"
    by simp
  from entry_path_verbatim [OF d1 d2 ne, where options = sample_options and m = "''require('./a')''"] d3 rc
  have c: "replacer relative_entry_env ''/p/a.js'' ''require('./a')'' ''./a'' ?d = (''__require(1,1)'', ?d)"
    by simp
  from h1 h2 ne h3 h4 a run x1 x4 b d3 c show ?thesis by simp
qed

theorem excluded_absolute_entry_counterexample:
  "files (constructor relative_entry_env ''a.js'' (sample_options\<lparr>excludeFiles := Some [''/p/a.js'']\<rparr>))
     = [''a.js'']
   \<and> ''a.js'' \<noteq> ''/p/a.js''
   \<and> call_sites ''x=require('./a');'' = [(''require('./a')'', ''./a'')]
   \<and> resolveSync relative_entry_env (unescape_first ''./a'') (path_dirname relative_entry_env ''a.js'') False
       = Some ''/p/a.js''
   \<and> map_option (\<lambda>st. (files st, emitted st))
        (reads 1 relative_entry_env
           (constructor relative_entry_env ''a.js'' (sample_options\<lparr>excludeFiles := Some [''/p/a.js'']\<rparr>)))
       = Some ([''a.js''], ''H;<0:a.js>x=require('./a');</0>;F'')"
  by code_simp

subsection \<open>An entry file without call sites\<close>

lemma call_sites_Nil:
  "call_sites code = [] \<Longrightarrow> scan_requires code = map Chr code"
proof (induction code rule: scan_requires.induct)
  case 1
  then show ?case by simp
next
  case (2 c cs)
  show ?case
  proof (cases "match_require (c # cs)")
    case None
    with 2(3) have "call_sites cs = []" by (simp add: call_sites_def)
    with 2(1) [OF None] None show ?thesis by simp
  next
    case (Some x)
    with 2(3) show ?thesis by (cases x) (simp add: call_sites_def)
  qed
qed

lemma replace_requires_Chr: "replace_requires E filePath (map Chr code) st = (code, st)"
  by (induction code) auto

lemma replace_tokens_excludeFiles:
  "replace_tokens E (options\<lparr>excludeFiles := x\<rparr>) filePath code = replace_tokens E options filePath code"
  by (simp add: replace_tokens_def)


text \<open>
  C2, amended. When the text of the entry file, with its line comments stripped, has no
  call site, then for every consumer three calls of \<open>_read\<close> at most end the run, and the
  text emitted is the header, the file header for identity 0 and the entry path,
  \<open>module.exports = \<close> if the entry path has the extension \<open>.json\<close>, the text of the file
  with its line comments stripped and (with an output path and \<open>browser\<close> not \<open>true\<close>) its
  path tokens rewritten, the file footer and the footer. The templates are filled by
  \<open>spec_fill_template\<close> and the tokens rewritten by \<open>spec_rewrite_tokens\<close>, which put
  the texts in as they are. The statement is about an entry path and a token argument that hold no
  replacement pattern, and a token argument that does not hold \<open>__filename\<close>; what the
  source makes of the others is the subject of C6. The text emitted holds the raw text
  itself when no comment is stripped, no token is rewritten and the path has not the
  extension \<open>.json\<close>.
\<close>

theorem bundle_without_requires:
  assumes raw: "readFile E entryModulePath = Some raw"
    and none: "call_sites (strip_comments raw) = []"
    and plain: "\<not> has_pattern entryModulePath"
    and arg: "rewrites_tokens options \<longrightarrow>
                \<not> has_pattern (token_argument E options entryModulePath)
                \<and> \<not> sublist ''__filename'' (token_argument E options entryModulePath)"
  shows "\<exists>st. reads 3 E (constructor E entryModulePath options) = Some st
          \<and> ended st
          \<and> files st = [entryModulePath]
          \<and> emitted st =
               HEADER E
               @ spec_fill_template (FILE_HEADER E) 0 entryModulePath
               @ (if path_extname E entryModulePath = ''.json'' then ''module.exports = '' else [])
               @ (if rewrites_tokens options
                  then spec_rewrite_tokens (token_argument E options entryModulePath) (strip_comments raw)
                  else strip_comments raw)
               @ spec_fill_template (FILE_FOOTER E) 0 entryModulePath
               @ FOOTER E
          \<and> (strip_comments raw = raw \<and> \<not> rewrites_tokens options
               \<and> path_extname E entryModulePath \<noteq> ''.json''
              \<longrightarrow> emitted st =
                    HEADER E @ spec_fill_template (FILE_HEADER E) 0 entryModulePath @ raw
                    @ spec_fill_template (FILE_FOOTER E) 0 entryModulePath @ FOOTER E)"
proof -
  let ?c = "constructor E entryModulePath options"
  define body where "body =
       file_header E [entryModulePath] entryModulePath
       @ (if path_extname E entryModulePath = ''.json'' then ''module.exports = '' else [])
       @ replace_tokens E options entryModulePath (strip_comments raw)
       @ file_footer E [entryModulePath] entryModulePath"
  define c1 where "c1 = ?c\<lparr>headerWritten := True, pushed := [Data (HEADER E)]\<rparr>"
  define c3 where "c3 = c1\<lparr>fileIndex := 1, pushed := [Data (HEADER E), Data body]\<rparr>"
  define fin where "fin = c3\<lparr>pushed := [Data (HEADER E), Data body, Data (FOOTER E), EOF]\<rparr>"
  have add: "addFile E entryModulePath c1 = (ready E 1, c3)"
    using raw call_sites_Nil [OF none]
    by (simp add: addFile_def replace_requires_Chr Let_def c1_def c3_def constructor_def push_def
          body_def replace_tokens_excludeFiles)
  have wf3: "write_files E c3 = Some (True, c3)"
    by (subst write_files.simps) (simp add: c3_def c1_def constructor_def)
  have wf1: "write_files E c1 = Some (ready E 1, c3)"
    using add wf3 by (subst write_files.simps) (simp add: c1_def constructor_def)
  have r0: "read E ?c = Some (if ready E 0 then (if ready E 1 then fin else c3) else c1)"
    using wf1 [unfolded c1_def]
    by (simp add: read_def continueProcessing_def push_def Let_def constructor_def c1_def c3_def fin_def)
  have r1: "read E c1 = Some (if ready E 1 then fin else c3)"
    using wf1
    by (simp add: read_def continueProcessing_def push_def Let_def c1_def c3_def fin_def constructor_def)
  have r3: "read E c3 = Some fin"
    using wf3
    by (simp add: read_def continueProcessing_def push_def Let_def c1_def c3_def fin_def constructor_def)
  have e: "\<not> ended ?c" "\<not> ended c1" "\<not> ended c3" "ended fin"
    by (simp_all add: ended_def constructor_def c1_def c3_def fin_def)
  have run: "reads 3 E ?c = Some fin"
    using r0 r1 r3 e by (simp add: numeral_3_eq_3)
  have f: "files fin = [entryModulePath]"
    by (simp add: fin_def c3_def c1_def constructor_def)
  have em: "emitted fin = HEADER E @ body @ FOOTER E"
    by (simp add: emitted_def fin_def)
  have hdr: "file_header E [entryModulePath] entryModulePath = spec_fill_template (FILE_HEADER E) 0 entryModulePath"
    using spec_fill_template_js_replace [OF plain] by (simp add: file_header_def)
  have ftr: "file_footer E [entryModulePath] entryModulePath = spec_fill_template (FILE_FOOTER E) 0 entryModulePath"
    using spec_fill_template_js_replace [OF plain] by (simp add: file_footer_def)
  have tok: "replace_tokens E options entryModulePath x
               = (if rewrites_tokens options
                  then spec_rewrite_tokens (token_argument E options entryModulePath) x else x)" for x
  proof (cases "rewrites_tokens options")
    case True
    with arg replace_tokens_spec [OF True, of E entryModulePath x] show ?thesis by simp
  next
    case False
    then show ?thesis by (simp add: replace_tokens_off)
  qed
  have em': "emitted fin = HEADER E
               @ spec_fill_template (FILE_HEADER E) 0 entryModulePath
               @ (if path_extname E entryModulePath = ''.json'' then ''module.exports = '' else [])
               @ (if rewrites_tokens options
                  then spec_rewrite_tokens (token_argument E options entryModulePath) (strip_comments raw)
                  else strip_comments raw)
               @ spec_fill_template (FILE_FOOTER E) 0 entryModulePath
               @ FOOTER E"
    unfolding em body_def hdr ftr tok by simp
  from run e(4) f em' show ?thesis by auto
qed

theorem bundle_without_requires_witness:
  "readFile sample_env ''/p/b.js'' = Some ''y=__dirname''
   \<and> call_sites (strip_comments ''y=__dirname'') = []
   \<and> \<not> has_pattern ''/p/b.js''
   \<and> rewrites_tokens sample_options
   \<and> token_argument sample_env sample_options ''/p/b.js'' = dquote # ''b.js'' @ [dquote]
   \<and> \<not> has_pattern (token_argument sample_env sample_options ''/p/b.js'')
   \<and> \<not> sublist ''__filename'' (token_argument sample_env sample_options ''/p/b.js'')
   \<and> (\<exists>st. reads 3 sample_env (constructor sample_env ''/p/b.js'' sample_options) = Some st
          \<and> ended st
          \<and> files st = [''/p/b.js'']
          \<and> emitted st = ''H;<0:/p/b.js>y=__getDirname('' @ [dquote] @ ''b.js'' @ [dquote] @ '')</0>;F'')
   \<and> strip_comments ''y=__dirname'' = ''y=__dirname''
   \<and> \<not> rewrites_tokens (sample_options\<lparr>outputPath := None\<rparr>)
   \<and> path_extname sample_env ''/p/b.js'' \<noteq> ''.json''
   \<and> (\<exists>st. reads 3 sample_env (constructor sample_env ''/p/b.js'' (sample_options\<lparr>outputPath := None\<rparr>)) = Some st
          \<and> emitted st = ''H;<0:/p/b.js>y=__dirname</0>;F'')"
proof -
  let ?o = "sample_options\<lparr>outputPath := None\<rparr>"
  have h1: "readFile sample_env ''/p/b.js'' = Some ''y=__dirname''" by code_simp
  have h2: "call_sites (strip_comments ''y=__dirname'') = []" by code_simp
  have h3: "strip_comments ''y=__dirname'' = ''y=__dirname''" by code_simp
  have h4: "\<not> rewrites_tokens ?o" by code_simp
  have h5: "path_extname sample_env ''/p/b.js'' \<noteq> ''.json''" by code_simp
  have h6: "\<not> has_pattern ''/p/b.js''" by code_simp
  have h7: "rewrites_tokens sample_options" by code_simp
  have h8: "token_argument sample_env sample_options ''/p/b.js'' = dquote # ''b.js'' @ [dquote]" by code_simp
  have h9: "\<not> has_pattern (token_argument sample_env sample_options ''/p/b.js'')
            \<and> \<not> sublist ''__filename'' (token_argument sample_env sample_options ''/p/b.js'')"
    by code_simp
  from h9 have a1: "rewrites_tokens sample_options \<longrightarrow>
                \<not> has_pattern (token_argument sample_env sample_options ''/p/b.js'')
                \<and> \<not> sublist ''__filename'' (token_argument sample_env sample_options ''/p/b.js'')"
    by simp
  from h4 have a2: "rewrites_tokens ?o \<longrightarrow>
                \<not> has_pattern (token_argument sample_env ?o ''/p/b.js'')
                \<and> \<not> sublist ''__filename'' (token_argument sample_env ?o ''/p/b.js'')"
    by simp
  have v1: "HEADER sample_env
               @ spec_fill_template (FILE_HEADER sample_env) 0 ''/p/b.js''
               @ (if path_extname sample_env ''/p/b.js'' = ''.json'' then ''module.exports = '' else [])
               @ (if rewrites_tokens sample_options
                  then spec_rewrite_tokens (token_argument sample_env sample_options ''/p/b.js'') (strip_comments ''y=__dirname'')
                  else strip_comments ''y=__dirname'')
               @ spec_fill_template (FILE_FOOTER sample_env) 0 ''/p/b.js''
               @ FOOTER sample_env
             = ''H;<0:/p/b.js>y=__getDirname('' @ [dquote] @ ''b.js'' @ [dquote] @ '')</0>;F''"
    by code_simp
  have v2: "HEADER sample_env @ spec_fill_template (FILE_HEADER sample_env) 0 ''/p/b.js'' @ ''y=__dirname''
              @ spec_fill_template (FILE_FOOTER sample_env) 0 ''/p/b.js'' @ FOOTER sample_env
             = ''H;<0:/p/b.js>y=__dirname</0>;F''"
    by code_simp
  from bundle_without_requires [OF h1 h2 h6 a1] v1
  have a: "\<exists>st. reads 3 sample_env (constructor sample_env ''/p/b.js'' sample_options) = Some st
          \<and> ended st \<and> files st = [''/p/b.js'']
          \<and> emitted st = ''H;<0:/p/b.js>y=__getDirname('' @ [dquote] @ ''b.js'' @ [dquote] @ '')</0>;F''"
    by (elim exE conjE) (intro exI conjI, assumption+, simp)
  from bundle_without_requires [OF h1 h2 h6 a2] h3 h4 h5 v2
  have b: "\<exists>st. reads 3 sample_env (constructor sample_env ''/p/b.js'' ?o) = Some st
          \<and> emitted st = ''H;<0:/p/b.js>y=__dirname</0>;F''"
    by (elim exE conjE) (intro exI conjI, assumption, simp)
  from h1 h2 h6 h7 h8 h9 a h3 h4 h5 b show ?thesis by blast
qed

theorem raw_source_counterexample:
  "call_sites (''a'' @ LF # ''// c'') = []
   \<and> map_option emitted
        (reads 1 (sample_env\<lparr>readFile := map_of [(''/p/c.js'', ''a'' @ LF # ''// c'')]\<rparr>)
          (constructor sample_env ''/p/c.js'' (sample_options\<lparr>outputPath := None\<rparr>)))
       = Some ''H;<0:/p/c.js>a</0>;F''
   \<and> HEADER sample_env @ spec_fill_template (FILE_HEADER sample_env) 0 ''/p/c.js'' @ (''a'' @ LF # ''// c'')
       @ spec_fill_template (FILE_FOOTER sample_env) 0 ''/p/c.js'' @ FOOTER sample_env
       = ''H;<0:/p/c.js>a'' @ LF # ''// c</0>;F''
   \<and> call_sites ''{}'' = []
   \<and> map_option emitted
        (reads 1 (sample_env\<lparr>readFile := map_of [(''/p/d.json'', ''{}'')],
                             path_extname := \<lambda>p. drop (length p - 5) p\<rparr>)
          (constructor sample_env ''/p/d.json'' (sample_options\<lparr>outputPath := None\<rparr>)))
       = Some ''H;<0:/p/d.json>module.exports = {}</0>;F''
   \<and> HEADER sample_env @ spec_fill_template (FILE_HEADER sample_env) 0 ''/p/d.json'' @ ''{}''
       @ spec_fill_template (FILE_FOOTER sample_env) 0 ''/p/d.json'' @ FOOTER sample_env
       = ''H;<0:/p/d.json>{}</0>;F''
   \<and> call_sites ''y=__dirname'' = []
   \<and> map_option emitted (reads 1 sample_env (constructor sample_env ''/p/b.js'' sample_options))
       = Some (''H;<0:/p/b.js>y=__getDirname('' @ dquote # ''b.js'' @ dquote # '')</0>;F'')
   \<and> HEADER sample_env @ spec_fill_template (FILE_HEADER sample_env) 0 ''/p/b.js'' @ ''y=__dirname''
       @ spec_fill_template (FILE_FOOTER sample_env) 0 ''/p/b.js'' @ FOOTER sample_env
       = ''H;<0:/p/b.js>y=__dirname</0>;F''
   \<and> call_sites (''require'' @ LF # ''//c'' @ LF # ''('./b')'') = []
   \<and> map_option emitted
        (reads 1 (sample_env\<lparr>readFile := map_of [(''/p/c.js'', ''require'' @ LF # ''//c'' @ LF # ''('./b')''),
                                                  (''/p/b.js'', ''y'')]\<rparr>)
          (constructor sample_env ''/p/c.js'' (sample_options\<lparr>outputPath := None\<rparr>)))
       = Some ''H;<0:/p/c.js>__require(1,0)</0><1:/p/b.js>y</1>;F''"
  by code_simp


subsection \<open>The consumer's readiness and failed reads\<close>

lemma replacer_ready: "replacer (E\<lparr>ready := r\<rparr>) filePath m name st = replacer E filePath m name st"
  by (simp add: replacer_def Let_def split: option.splits)

lemma replace_requires_ready:
  "replace_requires (E\<lparr>ready := r\<rparr>) filePath segs st = replace_requires E filePath segs st"
  by (induction E filePath segs st rule: replace_requires.induct)
     (auto simp: replacer_ready split: prod.splits)

lemma replace_tokens_ready:
  "replace_tokens (E\<lparr>ready := r\<rparr>) options filePath code = replace_tokens E options filePath code"
  by (simp add: replace_tokens_def Let_def)

lemma addFile_ready: "snd (addFile (E\<lparr>ready := r\<rparr>) filePath st) = snd (addFile E filePath st)"
  by (simp add: addFile_def replace_requires_ready replace_tokens_ready file_header_def
        file_footer_def push_def Let_def split: option.splits prod.splits)

lemma addFile_ready_fst:
  "readFile E filePath \<noteq> None \<Longrightarrow> fst (addFile (E\<lparr>ready := \<lambda>n. True\<rparr>) filePath st)"
  by (auto simp: addFile_def push_def Let_def split: option.splits prod.splits)

lemma addFile_None:
  "readFile E filePath = None \<Longrightarrow>
     addFile E filePath st = (False, st\<lparr>scheduled := scheduled st @ [ReadError filePath]\<rparr>)"
  by (simp add: addFile_def)


lemma addFile_Some:
  assumes "readFile E filePath = Some code"
  shows "scheduled (snd (addFile E filePath st)) = scheduled st"
    and "fileIndex (snd (addFile E filePath st)) = fileIndex st + 1"
    and "headerWritten (snd (addFile E filePath st)) = headerWritten st"
    and "\<exists>body. pushed (snd (addFile E filePath st))
            = pushed st @ [Data (file_header E (files (snd (addFile E filePath st))) filePath @ body
                                 @ file_footer E (files (snd (addFile E filePath st))) filePath)]"
proof -
  obtain code2 st2 where r: "replace_requires E filePath (scan_requires (strip_comments code))
                               (st\<lparr>fileIndex := fileIndex st + 1\<rparr>) = (code2, st2)" by force
  from replace_requires_frame [of E filePath "scan_requires (strip_comments code)"
         "st\<lparr>fileIndex := fileIndex st + 1\<rparr>"] r
  have f: "scheduled st2 = scheduled st" "pushed st2 = pushed st" "fileIndex st2 = fileIndex st + 1"
    "headerWritten st2 = headerWritten st"
    by simp_all
  define chunk where "chunk = file_header E (files st2) filePath
                      @ ((if path_extname E filePath = ''.json'' then ''module.exports = '' else [])
                         @ replace_tokens E (opts st2) filePath code2)
                      @ file_footer E (files st2) filePath"
  have a: "snd (addFile E filePath st) = st2\<lparr>pushed := pushed st2 @ [Data chunk]\<rparr>"
    using assms r by (simp add: addFile_def Let_def push_def chunk_def)
  show "scheduled (snd (addFile E filePath st)) = scheduled st" using a f by simp
  show "fileIndex (snd (addFile E filePath st)) = fileIndex st + 1" using a f by simp
  show "headerWritten (snd (addFile E filePath st)) = headerWritten st" using a f by simp
  show "\<exists>body. pushed (snd (addFile E filePath st))
            = pushed st @ [Data (file_header E (files (snd (addFile E filePath st))) filePath @ body
                                 @ file_footer E (files (snd (addFile E filePath st))) filePath)]"
    using a f unfolding chunk_def by (intro exI) simp
qed

lemma extends_not_ended: "extends st st' \<Longrightarrow> \<not> ended st \<Longrightarrow> \<not> ended st'"
proof -
  assume e: "extends st st'" and n: "\<not> ended st"
  then obtain p where p: "pushed st' = pushed st @ p" by (auto simp: extends_def prefix_def)
  with e have "EOF \<notin> set p" by (simp add: extends_def)
  with p n show ?thesis by (simp add: ended_def)
qed

lemma stuck_read:
  assumes "stuck E st"
  shows "read E st = Some (st\<lparr>scheduled := scheduled st @ [ReadError (files st ! fileIndex st)]\<rparr>)"
proof -
  from assms have h: "headerWritten st" "fileIndex st < length (files st)"
    "readFile E (files st ! fileIndex st) = None" by (simp_all add: stuck_def)
  have "write_files E st = Some (False, st\<lparr>scheduled := scheduled st @ [ReadError (files st ! fileIndex st)]\<rparr>)"
    using h by (subst write_files.simps) (simp add: addFile_None)
  with h show ?thesis by (simp add: read_def continueProcessing_def)
qed

lemma stuck_reads:
  assumes "stuck E st"
  shows "reads n E st
           = Some (st\<lparr>scheduled := scheduled st @ replicate n (ReadError (files st ! fileIndex st))\<rparr>)"
  using assms
proof (induction n arbitrary: st)
  case 0
  then show ?case by simp
next
  case (Suc n)
  let ?f = "files st ! fileIndex st"
  let ?s = "st\<lparr>scheduled := scheduled st @ [ReadError ?f]\<rparr>"
  from Suc.prems have s: "stuck E ?s" by (simp add: stuck_def ended_def)
  from Suc.prems have ne: "\<not> ended st" by (simp add: stuck_def)
  from Suc.IH [OF s] have "reads n E ?s = Some (st\<lparr>scheduled := scheduled st @ ReadError ?f # replicate n (ReadError ?f)\<rparr>)"
    by simp
  with stuck_read [OF Suc.prems] ne show ?case by simp
qed


lemma write_files_ready_step:
  assumes "fileIndex st < length (files st)"
    and "readFile E (files st ! fileIndex st) \<noteq> None"
  shows "write_files (E\<lparr>ready := \<lambda>n. True\<rparr>) st
           = write_files (E\<lparr>ready := \<lambda>n. True\<rparr>) (snd (addFile E (files st ! fileIndex st) st))"
proof -
  let ?T = "E\<lparr>ready := \<lambda>n. True\<rparr>"
  have "addFile ?T (files st ! fileIndex st) st = (True, snd (addFile E (files st ! fileIndex st) st))"
    using addFile_ready_fst [OF assms(2), of st] addFile_ready [where E = E and r = "\<lambda>n. True" and filePath = "files st ! fileIndex st" and st = st]
    by (cases "addFile ?T (files st ! fileIndex st) st") simp
  with assms(1) show ?thesis by (subst write_files.simps) simp
qed

text \<open>
  What one run of the loop amounts to: it stops at a file that cannot be read, with one
  more error scheduled, or it has scheduled nothing and the loop of a consumer that is
  always ready goes on from its result as it would have from its start.
\<close>

lemma write_files_outcome:
  assumes "write_files E st = Some (b, st')"
  shows "(\<not> b \<and> fileIndex st' < length (files st') \<and> readFile E (files st' ! fileIndex st') = None
            \<and> scheduled st' = scheduled st @ [ReadError (files st' ! fileIndex st')])
       \<or> (scheduled st' = scheduled st
            \<and> write_files (E\<lparr>ready := \<lambda>n. True\<rparr>) st' = write_files (E\<lparr>ready := \<lambda>n. True\<rparr>) st
            \<and> (b \<longrightarrow> \<not> fileIndex st' < length (files st')))"
  using assms
proof (induction rule: write_files_induct)
  case (finished st)
  then show ?case by simp
next
  case (suspended st st1)
  show ?case
  proof (cases "readFile E (files st ! fileIndex st)")
    case None
    with suspended addFile_None [OF None, of st] show ?thesis by auto
  next
    case (Some code)
    with write_files_ready_step [OF suspended(1), of E] suspended(2)
         addFile_Some(1) [OF Some, of st]
    show ?thesis by simp
  qed
next
  case (continued st st1 b st')
  from continued(2) have r: "readFile E (files st ! fileIndex st) \<noteq> None"
    using addFile_None [of E "files st ! fileIndex st" st] by auto
  then obtain code where c: "readFile E (files st ! fileIndex st) = Some code" by blast
  from write_files_ready_step [OF continued(1) r] continued(2)
  have w: "write_files (E\<lparr>ready := \<lambda>n. True\<rparr>) st = write_files (E\<lparr>ready := \<lambda>n. True\<rparr>) st1"
    by simp
  from addFile_Some(1) [OF c, of st] continued(2) have s: "scheduled st1 = scheduled st" by simp
  from continued(4) w s show ?case by auto
qed

lemma continueProcessing_headerWritten:
  "headerWritten st \<Longrightarrow>
   continueProcessing E st =
     (case write_files E st of
        None \<Rightarrow> None
      | Some (done_all, st2) \<Rightarrow>
          if \<not> done_all then Some st2
          else Some (st2\<lparr>pushed := pushed st2 @ [Data (FOOTER E), EOF]\<rparr>))"
  by (simp add: continueProcessing_def push_def Let_def split: option.splits prod.splits)

lemma continueProcessing_header:
  "\<not> headerWritten st \<Longrightarrow>
   continueProcessing E st =
     (if ready E (length (pushed st))
      then continueProcessing E (st\<lparr>headerWritten := True, pushed := pushed st @ [Data (HEADER E)]\<rparr>)
      else Some (st\<lparr>headerWritten := True, pushed := pushed st @ [Data (HEADER E)]\<rparr>))"
  by (simp add: continueProcessing_def push_def Let_def split: option.splits prod.splits)

text \<open>One call of \<open>_read\<close> in a state that is not ended and has no error scheduled.\<close>

lemma read_outcome_written:
  assumes h: "headerWritten st" and ne: "\<not> ended st"
    and r: "read E st = Some st1"
  shows "(ended st1 \<and> scheduled st1 = scheduled st
            \<and> continueProcessing (E\<lparr>ready := \<lambda>n. True\<rparr>) st = Some st1)
       \<or> (\<not> ended st1 \<and> scheduled st1 = scheduled st \<and> headerWritten st1
            \<and> continueProcessing (E\<lparr>ready := \<lambda>n. True\<rparr>) st1
                = continueProcessing (E\<lparr>ready := \<lambda>n. True\<rparr>) st)
       \<or> (stuck E st1 \<and> scheduled st1 = scheduled st @ [ReadError (files st1 ! fileIndex st1)])"
proof -
  let ?T = "E\<lparr>ready := \<lambda>n. True\<rparr>"
  from r h obtain b st2 where w: "write_files E st = Some (b, st2)"
    by (auto simp: read_def continueProcessing_headerWritten split: option.splits)
  from write_files_extends [OF w] have e: "extends st st2" .
  then have h2: "headerWritten st2" and ne2: "\<not> ended st2"
    using h ne extends_not_ended by (auto simp: extends_def)
  from write_files_outcome [OF w] show ?thesis
  proof (elim disjE conjE)
    assume "\<not> b" "fileIndex st2 < length (files st2)" "readFile E (files st2 ! fileIndex st2) = None"
      "scheduled st2 = scheduled st @ [ReadError (files st2 ! fileIndex st2)]"
    moreover from this r h w have "st1 = st2"
      by (simp add: read_def continueProcessing_headerWritten)
    ultimately show ?thesis using h2 ne2 by (simp add: stuck_def)
  next
    assume s: "scheduled st2 = scheduled st"
      and wt: "write_files ?T st2 = write_files ?T st"
      and fin: "b \<longrightarrow> \<not> fileIndex st2 < length (files st2)"
    show ?thesis
    proof (cases b)
      case False
      with r h w have "st1 = st2" by (simp add: read_def continueProcessing_headerWritten)
      with s wt h h2 ne2 show ?thesis by (simp add: continueProcessing_headerWritten)
    next
      case True
      with r h w have st1: "st1 = st2\<lparr>pushed := pushed st2 @ [Data (FOOTER E), EOF]\<rparr>"
        by (simp add: read_def continueProcessing_headerWritten)
      from True fin have "write_files ?T st2 = Some (True, st2)"
        by (subst write_files.simps) simp
      with wt have "write_files ?T st = Some (True, st2)" by simp
      with h st1 s show ?thesis by (simp add: continueProcessing_headerWritten ended_def)
    qed
  qed
qed

lemma read_outcome:
  assumes ne: "\<not> ended st" and r: "read E st = Some st1"
  shows "(ended st1 \<and> scheduled st1 = scheduled st
            \<and> continueProcessing (E\<lparr>ready := \<lambda>n. True\<rparr>) st = Some st1)
       \<or> (\<not> ended st1 \<and> scheduled st1 = scheduled st \<and> headerWritten st1
            \<and> continueProcessing (E\<lparr>ready := \<lambda>n. True\<rparr>) st1
                = continueProcessing (E\<lparr>ready := \<lambda>n. True\<rparr>) st)
       \<or> (stuck E st1 \<and> scheduled st1 = scheduled st @ [ReadError (files st1 ! fileIndex st1)])"
proof (cases "headerWritten st")
  case True
  from read_outcome_written [OF True ne r] show ?thesis .
next
  case False
  let ?T = "E\<lparr>ready := \<lambda>n. True\<rparr>"
  let ?s = "st\<lparr>headerWritten := True, pushed := pushed st @ [Data (HEADER E)]\<rparr>"
  have hs: "headerWritten ?s" and nes: "\<not> ended ?s" and ss: "scheduled ?s = scheduled st"
    using ne by (simp_all add: ended_def)
  have T: "continueProcessing ?T st = continueProcessing ?T ?s"
    using False by (simp add: continueProcessing_header)
  show ?thesis
  proof (cases "ready E (length (pushed st))")
    case False
    with r \<open>\<not> headerWritten st\<close> have "st1 = ?s" by (simp add: read_def continueProcessing_header)
    with T nes show ?thesis by simp
  next
    case True
    with r \<open>\<not> headerWritten st\<close> have "read E ?s = Some st1"
      by (simp add: read_def continueProcessing_header)
    from read_outcome_written [OF hs nes this] T ss show ?thesis by simp
  qed
qed

lemma reads_ended: "ended st \<Longrightarrow> reads n E st = Some st"
  by (cases n) simp_all


lemma reads_errors:
  assumes "scheduled st0 = [] \<or>
           (stuck E st0 \<and> (\<exists>k. scheduled st0 = replicate (Suc k) (ReadError (files st0 ! fileIndex st0))))"
    and "reads n E st0 = Some st"
  shows "scheduled st = [] \<or>
         (stuck E st \<and> (\<exists>k. scheduled st = replicate (Suc k) (ReadError (files st ! fileIndex st))))"
  using assms
proof (induction n arbitrary: st0)
  case 0
  then show ?case by simp
next
  case (Suc n)
  show ?case
  proof (cases "ended st0")
    case True
    with Suc.prems show ?thesis by simp
  next
    case False
    with Suc.prems(2) obtain st1 where r: "read E st0 = Some st1" and rs: "reads n E st1 = Some st"
      by (auto split: option.splits)
    have "scheduled st1 = [] \<or>
           (stuck E st1 \<and> (\<exists>k. scheduled st1 = replicate (Suc k) (ReadError (files st1 ! fileIndex st1))))"
    proof (cases "scheduled st0 = []")
      case True
      from read_outcome [OF False r] True show ?thesis by auto
    next
      case ne: False
      with Suc.prems(1) obtain k where s: "stuck E st0"
        and k: "scheduled st0 = replicate (Suc k) (ReadError (files st0 ! fileIndex st0))" by blast
      let ?f = "files st0 ! fileIndex st0"
      from stuck_read [OF s] r have st1: "st1 = st0\<lparr>scheduled := scheduled st0 @ [ReadError ?f]\<rparr>"
        by simp
      with s have "stuck E st1" by (simp add: stuck_def ended_def)
      moreover from st1 k have "scheduled st1 = replicate (Suc (Suc k)) (ReadError (files st1 ! fileIndex st1))"
        by (simp add: replicate_append_same)
      ultimately show ?thesis by blast
    qed
    from Suc.IH [OF this rs] show ?thesis .
  qed
qed


lemma write_files_suspended:
  assumes "write_files E st = Some (b, st')"
  shows "\<not> b \<and> scheduled st' = scheduled st \<longrightarrow>
           length (pushed st) < length (pushed st') \<and> \<not> ready E (length (pushed st') - 1)"
  using assms
proof (induction rule: write_files_induct)
  case (finished st)
  then show ?case by simp
next
  case (suspended st st1)
  show ?case
  proof (cases "readFile E (files st ! fileIndex st)")
    case None
    with suspended addFile_None [OF None, of st] show ?thesis by auto
  next
    case (Some code)
    obtain code2 st2 where r: "replace_requires E (files st ! fileIndex st) (scan_requires (strip_comments code))
                               (st\<lparr>fileIndex := fileIndex st + 1\<rparr>) = (code2, st2)" by force
    from replace_requires_frame [of E "files st ! fileIndex st" "scan_requires (strip_comments code)"
         "st\<lparr>fileIndex := fileIndex st + 1\<rparr>"] r
    have f: "pushed st2 = pushed st" by simp
    from suspended(2) Some r f show ?thesis
      by (auto simp: addFile_def Let_def push_def)
  qed
next
  case (continued st st1 b st')
  from continued(2) have r: "readFile E (files st ! fileIndex st) \<noteq> None"
    using addFile_None [of E "files st ! fileIndex st" st] by auto
  then obtain code where c: "readFile E (files st ! fileIndex st) = Some code" by blast
  from addFile_Some(1,4) [OF c, of st] continued(2)
  have s: "scheduled st1 = scheduled st" and p: "length (pushed st) < length (pushed st1)" by auto
  from continued(4) s p show ?case by auto
qed

lemma read_suspended:
  assumes ne: "\<not> ended st" and r: "read E st = Some st1"
    and ne1: "\<not> ended st1" and s: "scheduled st1 = scheduled st"
  shows "length (pushed st) < length (pushed st1) \<and> \<not> ready E (length (pushed st1) - 1)"
proof -
  have written: "length (pushed s0) < length (pushed st1) \<and> \<not> ready E (length (pushed st1) - 1)"
    if h: "headerWritten s0" and r0: "read E s0 = Some st1" and s0: "scheduled st1 = scheduled s0" for s0
  proof -
    from r0 h obtain b st2 where w: "write_files E s0 = Some (b, st2)"
      by (auto simp: read_def continueProcessing_headerWritten split: option.splits)
    have "\<not> b"
    proof
      assume b
      with r0 h w have "st1 = st2\<lparr>pushed := pushed st2 @ [Data (FOOTER E), EOF]\<rparr>"
        by (simp add: read_def continueProcessing_headerWritten)
      with ne1 show False by (simp add: ended_def)
    qed
    with r0 h w have "st1 = st2" by (simp add: read_def continueProcessing_headerWritten)
    with write_files_suspended [OF w] \<open>\<not> b\<close> s0 show ?thesis by simp
  qed
  show ?thesis
  proof (cases "headerWritten st")
    case True
    from written [OF True r s] show ?thesis .
  next
    case False
    let ?s = "st\<lparr>headerWritten := True, pushed := pushed st @ [Data (HEADER E)]\<rparr>"
    show ?thesis
    proof (cases "ready E (length (pushed st))")
      case nr: False
      with r False have "st1 = ?s" by (simp add: read_def continueProcessing_header)
      with nr show ?thesis by simp
    next
      case True
      with r False have "read E ?s = Some st1" by (simp add: read_def continueProcessing_header)
      from written [OF _ this] s show ?thesis by simp
    qed
  qed
qed

lemma unreadable_read:
  assumes "fileIndex st < length (files st)" and "readFile E (files st ! fileIndex st) = None"
  shows "read E st =
           Some (if headerWritten st
                 then st\<lparr>scheduled := scheduled st @ [ReadError (files st ! fileIndex st)]\<rparr>
                 else if ready E (length (pushed st))
                 then st\<lparr>headerWritten := True, pushed := pushed st @ [Data (HEADER E)],
                         scheduled := scheduled st @ [ReadError (files st ! fileIndex st)]\<rparr>
                 else st\<lparr>headerWritten := True, pushed := pushed st @ [Data (HEADER E)]\<rparr>)"
proof -
  have w: "write_files E s = Some (False, s\<lparr>scheduled := scheduled s @ [ReadError (files s ! fileIndex s)]\<rparr>)"
    if "fileIndex s < length (files s)" "readFile E (files s ! fileIndex s) = None" for s
    using that by (subst write_files.simps) (simp add: addFile_None)
  show ?thesis
  proof (cases "headerWritten st")
    case True
    with w [OF assms] show ?thesis by (simp add: read_def continueProcessing_headerWritten)
  next
    case False
    let ?s = "st\<lparr>headerWritten := True, pushed := pushed st @ [Data (HEADER E)]\<rparr>"
    from assms have "fileIndex ?s < length (files ?s)" "readFile E (files ?s ! fileIndex ?s) = None"
      by simp_all
    from w [OF this] False show ?thesis
      by (simp add: read_def continueProcessing_header continueProcessing_headerWritten)
  qed
qed


text \<open>
  C3, amended. In a run from the constructor, a call of \<open>_read\<close> that finds the file at
  the cursor unreadable schedules one error for this file and pushes no file chunk, no
  footer and no end marker: when the header is written it changes nothing else; when it
  is not, the header is pushed first, and the read is tried only if the consumer took the
  header. A call of \<open>_read\<close> with no error scheduled before it ends the run, or returns
  because the consumer refused its last push, or returns with one error scheduled, for a
  file at the cursor that cannot be read. When a run has scheduled an error, the file at
  the cursor cannot be read, the run has not ended, and all the errors scheduled are for
  this file, one for each call of \<open>_read\<close> since the read first failed. Every further call
  of \<open>_read\<close> schedules one more of them and changes nothing else: no chunk is pushed, be
  it the header, a file, the footer or the end marker.
\<close>

theorem read_failure_repeats:
  assumes "reads n E (constructor E entryModulePath options) = Some st"
  shows "(fileIndex st < length (files st) \<and> readFile E (files st ! fileIndex st) = None \<longrightarrow>
           read E st =
             Some (if headerWritten st
                   then st\<lparr>scheduled := scheduled st @ [ReadError (files st ! fileIndex st)]\<rparr>
                   else if ready E (length (pushed st))
                   then st\<lparr>headerWritten := True, pushed := pushed st @ [Data (HEADER E)],
                           scheduled := scheduled st @ [ReadError (files st ! fileIndex st)]\<rparr>
                   else st\<lparr>headerWritten := True, pushed := pushed st @ [Data (HEADER E)]\<rparr>))
       \<and> (scheduled st = [] \<and> \<not> ended st \<longrightarrow>
           (\<forall>st1. read E st = Some st1 \<longrightarrow>
              (ended st1 \<and> scheduled st1 = [])
              \<or> (\<not> ended st1 \<and> scheduled st1 = []
                  \<and> length (pushed st) < length (pushed st1)
                  \<and> \<not> ready E (length (pushed st1) - 1))
              \<or> (\<not> ended st1 \<and> scheduled st1 = [ReadError (files st1 ! fileIndex st1)]
                  \<and> fileIndex st1 < length (files st1)
                  \<and> readFile E (files st1 ! fileIndex st1) = None)))
       \<and> (scheduled st \<noteq> [] \<longrightarrow>
           (\<exists>k. fileIndex st < length (files st)
              \<and> readFile E (files st ! fileIndex st) = None
              \<and> \<not> ended st
              \<and> scheduled st = replicate (Suc k) (ReadError (files st ! fileIndex st))
              \<and> (\<forall>m. reads m E st
                     = Some (st\<lparr>scheduled := scheduled st
                                   @ replicate m (ReadError (files st ! fileIndex st))\<rparr>))))"
proof (intro conjI impI allI)
  assume "fileIndex st < length (files st) \<and> readFile E (files st ! fileIndex st) = None"
  then show "read E st =
             Some (if headerWritten st
                   then st\<lparr>scheduled := scheduled st @ [ReadError (files st ! fileIndex st)]\<rparr>
                   else if ready E (length (pushed st))
                   then st\<lparr>headerWritten := True, pushed := pushed st @ [Data (HEADER E)],
                           scheduled := scheduled st @ [ReadError (files st ! fileIndex st)]\<rparr>
                   else st\<lparr>headerWritten := True, pushed := pushed st @ [Data (HEADER E)]\<rparr>)"
    using unreadable_read [of st E] by blast
next
  fix st1
  assume a: "scheduled st = [] \<and> \<not> ended st" and r: "read E st = Some st1"
  from a have ne: "\<not> ended st" and s: "scheduled st = []" by simp_all
  from read_outcome [OF ne r] s read_suspended [OF ne r]
  show "(ended st1 \<and> scheduled st1 = [])
              \<or> (\<not> ended st1 \<and> scheduled st1 = []
                  \<and> length (pushed st) < length (pushed st1)
                  \<and> \<not> ready E (length (pushed st1) - 1))
              \<or> (\<not> ended st1 \<and> scheduled st1 = [ReadError (files st1 ! fileIndex st1)]
                  \<and> fileIndex st1 < length (files st1)
                  \<and> readFile E (files st1 ! fileIndex st1) = None)"
    by (auto simp: stuck_def)
next
  assume ne: "scheduled st \<noteq> []"
  have "scheduled (constructor E entryModulePath options) = []" by (simp add: constructor_def)
  then have "scheduled st = [] \<or>
         (stuck E st \<and> (\<exists>k. scheduled st = replicate (Suc k) (ReadError (files st ! fileIndex st))))"
    using assms reads_errors by blast
  with ne obtain k where s: "stuck E st"
    and k: "scheduled st = replicate (Suc k) (ReadError (files st ! fileIndex st))" by blast
  from s have "fileIndex st < length (files st)" "readFile E (files st ! fileIndex st) = None" "\<not> ended st"
    by (simp_all add: stuck_def)
  with k stuck_reads [OF s] show "\<exists>k. fileIndex st < length (files st)
              \<and> readFile E (files st ! fileIndex st) = None
              \<and> \<not> ended st
              \<and> scheduled st = replicate (Suc k) (ReadError (files st ! fileIndex st))
              \<and> (\<forall>m. reads m E st
                     = Some (st\<lparr>scheduled := scheduled st
                                   @ replicate m (ReadError (files st ! fileIndex st))\<rparr>))"
    by blast
qed

theorem read_failure_repeats_witness:
  "reads 0 missing_file_env (constructor missing_file_env ''/p/a.js'' sample_options)
     = Some (constructor missing_file_env ''/p/a.js'' sample_options)
   \<and> scheduled (constructor missing_file_env ''/p/a.js'' sample_options) = []
   \<and> \<not> ended (constructor missing_file_env ''/p/a.js'' sample_options)
   \<and> (\<exists>st. read missing_file_env (constructor missing_file_env ''/p/a.js'' sample_options) = Some st
      \<and> reads 1 missing_file_env (constructor missing_file_env ''/p/a.js'' sample_options) = Some st
      \<and> \<not> ended st
      \<and> scheduled st = [ReadError ''/p/b.js'']
      \<and> pushed st = [Data ''H;'', Data ''<0:/p/a.js>x=__require(1,0);</0>'']
      \<and> files st ! fileIndex st = ''/p/b.js''
      \<and> fileIndex st < length (files st)
      \<and> readFile missing_file_env ''/p/b.js'' = None
      \<and> read missing_file_env st = Some (st\<lparr>scheduled := [ReadError ''/p/b.js'', ReadError ''/p/b.js'']\<rparr>)
      \<and> reads 2 missing_file_env st
           = Some (st\<lparr>scheduled := [ReadError ''/p/b.js'', ReadError ''/p/b.js'', ReadError ''/p/b.js'']\<rparr>))"
proof -
  let ?c = "constructor missing_file_env ''/p/a.js'' sample_options"
  have z: "reads 0 missing_file_env ?c = Some ?c" by simp
  have c0: "scheduled ?c = [] \<and> \<not> ended ?c" by (simp add: constructor_def ended_def)
  have "reads 1 missing_file_env ?c \<noteq> None" by code_simp
  then obtain st where st: "reads 1 missing_file_env ?c = Some st" by blast
  with c0 have rd: "read missing_file_env ?c = Some st" by (simp split: option.splits)
  have "map_option (\<lambda>s. (scheduled s, files s ! fileIndex s, headerWritten s, pushed s)) (reads 1 missing_file_env ?c)
          = Some ([ReadError ''/p/b.js''], ''/p/b.js'', True,
                  [Data ''H;'', Data ''<0:/p/a.js>x=__require(1,0);</0>''])"
    by code_simp
  with st have s: "scheduled st = [ReadError ''/p/b.js'']" and f: "files st ! fileIndex st = ''/p/b.js''"
    and h: "headerWritten st" and p: "pushed st = [Data ''H;'', Data ''<0:/p/a.js>x=__require(1,0);</0>'']"
    by simp_all
  from s have ne: "scheduled st \<noteq> []" by simp
  from read_failure_repeats [OF z, THEN conjunct2, THEN conjunct1, rule_format, OF c0 rd] s f
  have u: "\<not> ended st \<and> fileIndex st < length (files st) \<and> readFile missing_file_env ''/p/b.js'' = None"
    by auto
  then have u': "fileIndex st < length (files st) \<and> readFile missing_file_env (files st ! fileIndex st) = None"
    using f by simp
  from read_failure_repeats [OF st, THEN conjunct1, rule_format, OF u'] h s f
  have one: "read missing_file_env st = Some (st\<lparr>scheduled := [ReadError ''/p/b.js'', ReadError ''/p/b.js'']\<rparr>)"
    by simp
  from read_failure_repeats [OF st, THEN conjunct2, THEN conjunct2, rule_format, OF ne] have
    k: "\<forall>m. reads m missing_file_env st
                  = Some (st\<lparr>scheduled := scheduled st @ replicate m (ReadError (files st ! fileIndex st))\<rparr>)"
    by blast
  from k [rule_format, of 2] s f
  have "reads 2 missing_file_env st
           = Some (st\<lparr>scheduled := [ReadError ''/p/b.js'', ReadError ''/p/b.js'', ReadError ''/p/b.js'']\<rparr>)"
    by (simp add: numeral_2_eq_2)
  with z c0 rd st s f p u one show ?thesis by simp
qed

theorem error_raised_again_counterexample:
  "map_option (\<lambda>st. (scheduled st, pushed st))
     (reads 1 missing_file_env (constructor missing_file_env ''/p/a.js'' sample_options))
     = Some ([ReadError ''/p/b.js''],
             [Data ''H;'', Data ''<0:/p/a.js>x=__require(1,0);</0>''])
   \<and> map_option (\<lambda>st. (scheduled st, pushed st))
     (reads 2 missing_file_env (constructor missing_file_env ''/p/a.js'' sample_options))
     = Some ([ReadError ''/p/b.js'', ReadError ''/p/b.js''],
             [Data ''H;'', Data ''<0:/p/a.js>x=__require(1,0);</0>''])"
  by code_simp


lemma reads_ended_unconstrained:
  assumes "scheduled st0 = []" "\<not> ended st0" "reads n E st0 = Some st" "ended st"
  shows "continueProcessing (E\<lparr>ready := \<lambda>n. True\<rparr>) st0 = Some st"
  using assms
proof (induction n arbitrary: st0)
  case 0
  then show ?case by simp
next
  case (Suc n)
  from Suc.prems(2,3) obtain st1 where r: "read E st0 = Some st1" and rs: "reads n E st1 = Some st"
    by (auto split: option.splits)
  from read_outcome [OF Suc.prems(2) r] show ?case
  proof (elim disjE conjE)
    assume "ended st1" and c: "continueProcessing (E\<lparr>ready := \<lambda>n. True\<rparr>) st0 = Some st1"
    with rs reads_ended [of st1 n E] show ?thesis by simp
  next
    assume "\<not> ended st1" "scheduled st1 = scheduled st0"
      and c: "continueProcessing (E\<lparr>ready := \<lambda>n. True\<rparr>) st1
                = continueProcessing (E\<lparr>ready := \<lambda>n. True\<rparr>) st0"
    with Suc.IH [of st1] Suc.prems(1,4) rs show ?thesis by simp
  next
    assume s: "stuck E st1"
    from stuck_reads [OF s, of n] rs have "pushed st = pushed st1" by auto
    with s Suc.prems(4) show ?thesis by (simp add: stuck_def ended_def)
  qed
qed

lemma constructor_ready: "constructor (E\<lparr>ready := r\<rparr>) entryModulePath options = constructor E entryModulePath options"
  by (simp add: constructor_def)


lemma file_header_append:
  "f \<in> set fs \<Longrightarrow> file_header E (fs @ new) f = file_header E fs f"
  "f \<in> set fs \<Longrightarrow> file_footer E (fs @ new) f = file_footer E fs f"
  by (simp_all add: file_header_def file_footer_def indexOf_append)

lemma wrapped_Nil: "wrapped E fs k []"
  by (simp add: wrapped_def)

lemma wrapped_Cons:
  assumes "c = file_header E fs (fs ! k) @ body @ file_footer E fs (fs ! k)"
    and "wrapped E fs (Suc k) chunks"
  shows "wrapped E fs k (c # chunks)"
  unfolding wrapped_def
proof (intro allI impI)
  fix i assume i: "i < length (c # chunks)"
  show "\<exists>body. (c # chunks) ! i = file_header E fs (fs ! (k + i)) @ body @ file_footer E fs (fs ! (k + i))"
  proof (cases i)
    case 0
    with assms(1) show ?thesis by auto
  next
    case (Suc j)
    with i assms(2) show ?thesis by (auto simp: wrapped_def)
  qed
qed

lemma addFile_chunk:
  assumes lt: "fileIndex st < length (files st)"
    and rd: "readFile E (files st ! fileIndex st) \<noteq> None"
    and a: "addFile E (files st ! fileIndex st) st = (go, st1)"
  shows "\<exists>body. pushed st1 = pushed st @
            [Data (file_header E (files st1) (files st1 ! fileIndex st) @ body
                   @ file_footer E (files st1) (files st1 ! fileIndex st))]"
    and "fileIndex st1 = fileIndex st + 1"
    and "fileIndex st1 \<le> length (files st1)"
    and "files st ! fileIndex st \<in> set (files st1)"
proof -
  from rd obtain code where c: "readFile E (files st ! fileIndex st) = Some code" by blast
  from addFile_extends [of st E "files st ! fileIndex st"] a have e: "extends st st1" by simp
  then obtain new where n: "files st1 = files st @ new" by (auto simp: extends_def)
  with lt have f: "files st1 ! fileIndex st = files st ! fileIndex st" by (simp add: nth_append)
  from addFile_Some(4) [OF c, of st] a f
  show "\<exists>body. pushed st1 = pushed st @
            [Data (file_header E (files st1) (files st1 ! fileIndex st) @ body
                   @ file_footer E (files st1) (files st1 ! fileIndex st))]" by simp
  from addFile_Some(2) [OF c, of st] a show i: "fileIndex st1 = fileIndex st + 1" by simp
  from i n lt show "fileIndex st1 \<le> length (files st1)" by simp
  from n lt show "files st ! fileIndex st \<in> set (files st1)" by simp
qed

lemma write_files_chunks:
  assumes "write_files E st = Some (b, st')"
  shows "fileIndex st \<le> length (files st) \<longrightarrow>
         (\<exists>chunks. pushed st' = pushed st @ map Data chunks
            \<and> fileIndex st' = fileIndex st + length chunks
            \<and> fileIndex st' \<le> length (files st')
            \<and> wrapped E (files st') (fileIndex st) chunks)"
  using assms
proof (induction rule: write_files_induct)
  case (finished st)
  show ?case by (intro impI exI [of _ "[]"]) (simp add: wrapped_Nil)
next
  case (suspended st st1)
  show ?case
  proof (cases "readFile E (files st ! fileIndex st)")
    case None
    with suspended addFile_None [OF None, of st] show ?thesis
      by (intro impI exI [of _ "[]"]) (auto simp: wrapped_Nil)
  next
    case (Some code)
    then have rd: "readFile E (files st ! fileIndex st) \<noteq> None" by simp
    from addFile_chunk(1) [OF suspended(1) rd suspended(2)] obtain body where
      p: "pushed st1 = pushed st @
            [Data (file_header E (files st1) (files st1 ! fileIndex st) @ body
                   @ file_footer E (files st1) (files st1 ! fileIndex st))]" by blast
    let ?c = "file_header E (files st1) (files st1 ! fileIndex st) @ body
                   @ file_footer E (files st1) (files st1 ! fileIndex st)"
    have "wrapped E (files st1) (fileIndex st) [?c]"
      by (rule wrapped_Cons [OF refl wrapped_Nil])
    with p addFile_chunk(2,3) [OF suspended(1) rd suspended(2)]
    show ?thesis by (intro impI exI [of _ "[?c]"]) simp
  qed
next
  case (continued st st1 b st')
  from continued(2) have rd: "readFile E (files st ! fileIndex st) \<noteq> None"
    using addFile_None [of E "files st ! fileIndex st" st] by auto
  note ac = addFile_chunk [OF continued(1) rd continued(2)]
  from ac(1) obtain body where
      p: "pushed st1 = pushed st @
            [Data (file_header E (files st1) (files st1 ! fileIndex st) @ body
                   @ file_footer E (files st1) (files st1 ! fileIndex st))]" by blast
  from continued(4) ac(3) obtain chunks where
    c: "pushed st' = pushed st1 @ map Data chunks" "fileIndex st' = fileIndex st1 + length chunks"
       "fileIndex st' \<le> length (files st')" "wrapped E (files st') (fileIndex st1) chunks" by blast
  from write_files_extends [OF continued(3)] obtain new where n: "files st' = files st1 @ new"
    by (auto simp: extends_def)
  from ac(2,3) have lt1: "fileIndex st < length (files st1)" by simp
  with n have f: "files st' ! fileIndex st = files st1 ! fileIndex st" by (simp add: nth_append)
  from lt1 have m: "files st1 ! fileIndex st \<in> set (files st1)" by simp
  let ?c = "file_header E (files st') (files st' ! fileIndex st) @ body
                   @ file_footer E (files st') (files st' ! fileIndex st)"
  have eq: "file_header E (files st1) (files st1 ! fileIndex st) @ body
                   @ file_footer E (files st1) (files st1 ! fileIndex st) = ?c"
    using file_header_append [OF m, of E new] n f by simp
  have w: "wrapped E (files st') (fileIndex st) (?c # chunks)"
    using c(4) ac(2) by (intro wrapped_Cons [OF refl]) simp
  from p c eq ac(2) w show ?case
    by (intro impI exI [of _ "?c # chunks"]) simp
qed


text \<open>
  What stands between a run and its end is a file that cannot be read. With finitely many
  readable files every call of \<open>_read\<close> returns; if moreover the entry file and every path
  \<open>resolve.sync\<close> returns can be read, a run ends within as many calls of \<open>_read\<close> as there
  are readable files, and two more.
\<close>

lemma write_files_returns:
  assumes fin: "finite (dom (readFile E))"
  shows "distinct (files st) \<Longrightarrow> write_files E st \<noteq> None"
proof (induction "card (dom (readFile E) - set (take (fileIndex st) (files st)))" arbitrary: st rule: less_induct)
  case less
  show ?case
  proof (cases "fileIndex st < length (files st)")
    case False
    then show ?thesis by (subst write_files.simps) simp
  next
    case True
    let ?f = "files st ! fileIndex st"
    obtain go st1 where a: "addFile E ?f st = (go, st1)" by force
    show ?thesis
    proof (cases go)
      case False
      with a True show ?thesis by (subst write_files.simps) simp
    next
      case go: True
      with a have rd: "readFile E ?f \<noteq> None" using addFile_None [of E ?f st] by auto
      note ac = addFile_chunk [OF True rd a]
      from addFile_extends [of st E ?f] a have e: "extends st st1" by simp
      then obtain new where n: "files st1 = files st @ new" "distinct new" "set new \<inter> set (files st) = {}"
        by (auto simp: extends_def)
      with less.prems have d1: "distinct (files st1)" by auto
      from n True ac(2) have t: "take (fileIndex st1) (files st1) = take (fileIndex st) (files st) @ [?f]"
        by (simp add: take_Suc_conv_app_nth)
      from less.prems True have nin: "?f \<notin> set (take (fileIndex st) (files st))"
        by (metis distinct_take id_take_nth_drop not_distinct_conv_prefix append_Cons)
      from rd have "?f \<in> dom (readFile E)" by auto
      with nin have m: "?f \<in> dom (readFile E) - set (take (fileIndex st) (files st))" by simp
      have "finite (dom (readFile E) - set (take (fileIndex st) (files st)))" using fin by simp
      from card_Diff1_less [OF this m]
      have "card ((dom (readFile E) - set (take (fileIndex st) (files st))) - {?f})
              < card (dom (readFile E) - set (take (fileIndex st) (files st)))" .
      moreover have "dom (readFile E) - set (take (fileIndex st1) (files st1))
                       = (dom (readFile E) - set (take (fileIndex st) (files st))) - {?f}"
        using t by auto
      ultimately have "card (dom (readFile E) - set (take (fileIndex st1) (files st1)))
                       < card (dom (readFile E) - set (take (fileIndex st) (files st)))"
        by simp
      from less.hyps [OF this d1] have "write_files E st1 \<noteq> None" .
      with a go True show ?thesis by (subst write_files.simps) simp
    qed
  qed
qed


lemma appended_distinct: "appended st st' \<Longrightarrow> distinct (files st) \<Longrightarrow> distinct (files st')"
  by (auto simp: appended_def)

lemma read_returns:
  assumes "finite (dom (readFile E))" "distinct (files st)"
  shows "read E st \<noteq> None"
proof -
  have w: "continueProcessing E s \<noteq> None" if "headerWritten s" "distinct (files s)" for s
    using write_files_returns [OF assms(1) that(2)] that(1)
    by (auto simp: continueProcessing_headerWritten split: option.splits)
  show ?thesis
  proof (cases "headerWritten st")
    case True
    with w assms(2) show ?thesis by (simp add: read_def)
  next
    case False
    with w [of "st\<lparr>headerWritten := True, pushed := pushed st @ [Data (HEADER E)]\<rparr>"] assms(2)
    show ?thesis by (simp add: read_def continueProcessing_header)
  qed
qed

lemma reads_returns:
  assumes "finite (dom (readFile E))"
  shows "distinct (files st) \<Longrightarrow> reads n E st \<noteq> None"
proof (induction n arbitrary: st)
  case 0
  then show ?case by simp
next
  case (Suc n)
  show ?case
  proof (cases "ended st")
    case True
    then show ?thesis by simp
  next
    case False
    from read_returns [OF assms Suc.prems] obtain st1 where r: "read E st = Some st1" by blast
    then have "appended st st1" by (simp add: read_def continueProcessing_appended)
    then have "distinct (files st1)" using Suc.prems by (rule appended_distinct)
    from Suc.IH [OF this] r False show ?thesis by simp
  qed
qed

lemma replacer_readable:
  assumes "resolves_readable E" "readable E st"
  shows "readable E (snd (replacer E filePath m name st))"
  using assms
  by (auto simp: replacer_def readable_def resolves_readable_def Let_def split: option.splits)

lemma replace_requires_readable:
  assumes "resolves_readable E"
  shows "readable E st \<Longrightarrow> readable E (snd (replace_requires E filePath segs st))"
proof (induction segs arbitrary: st)
  case Nil
  then show ?case by simp
next
  case (Cons a segs)
  show ?case
  proof (cases a)
    case (Chr c)
    with Cons.IH [OF Cons.prems] show ?thesis by (auto split: prod.splits)
  next
    case (Call m name)
    obtain r st1 where r: "replacer E filePath m name st = (r, st1)" by force
    with replacer_readable [OF assms Cons.prems, of filePath m name] have "readable E st1" by simp
    from Cons.IH [OF this] Call r show ?thesis by (auto split: prod.splits)
  qed
qed

lemma addFile_readable:
  assumes "resolves_readable E" "readable E st"
  shows "readable E (snd (addFile E filePath st))"
proof (cases "readFile E filePath")
  case None
  with assms(2) show ?thesis by (simp add: addFile_None readable_def)
next
  case (Some code)
  have "readable E (st\<lparr>fileIndex := fileIndex st + 1\<rparr>)" using assms(2) by (simp add: readable_def)
  from replace_requires_readable [OF assms(1) this, of filePath "scan_requires (strip_comments code)"]
  show ?thesis using Some
    by (auto simp: addFile_def Let_def push_def readable_def split: prod.splits)
qed

lemma write_files_readable:
  assumes "write_files E st = Some (b, st')" and "resolves_readable E"
  shows "readable E st \<longrightarrow> readable E st'"
  using assms(1)
proof (induction rule: write_files_induct)
  case (finished st)
  then show ?case by simp
next
  case (suspended st st1)
  with addFile_readable [OF assms(2), of st "files st ! fileIndex st"] show ?case by auto
next
  case (continued st st1 b st')
  with addFile_readable [OF assms(2), of st "files st ! fileIndex st"] show ?case by auto
qed

lemma write_files_progress:
  assumes "write_files E st = Some (b, st')"
  shows "\<not> b \<and> scheduled st' = scheduled st \<longrightarrow> fileIndex st < fileIndex st'"
  using assms
proof (induction rule: write_files_induct)
  case (finished st)
  then show ?case by simp
next
  case (suspended st st1)
  show ?case
  proof (cases "readFile E (files st ! fileIndex st)")
    case None
    with suspended(2) addFile_None [OF None, of st] show ?thesis by auto
  next
    case (Some code)
    with addFile_Some(2) [OF Some, of st] suspended(2) show ?thesis by simp
  qed
next
  case (continued st st1 b st')
  from continued(2) have "readFile E (files st ! fileIndex st) \<noteq> None"
    using addFile_None [of E "files st ! fileIndex st" st] by auto
  then obtain code where c: "readFile E (files st ! fileIndex st) = Some code" by blast
  from addFile_Some(1,2) [OF c, of st] continued(2)
  have "scheduled st1 = scheduled st" "fileIndex st1 = fileIndex st + 1" by simp_all
  with continued(4) show ?case by auto
qed


lemma steady_cursor:
  assumes "finite (dom (readFile E))" "steady E st"
  shows "fileIndex st \<le> card (dom (readFile E))"
proof -
  let ?t = "take (fileIndex st) (files st)"
  from assms(2) have "set ?t \<subseteq> dom (readFile E)" by (auto simp: steady_def)
  with assms(1) have "card (set ?t) \<le> card (dom (readFile E))" by (rule card_mono)
  moreover from assms(2) have "distinct ?t" by (simp add: steady_def)
  then have "card (set ?t) = length ?t" by (rule distinct_card)
  moreover from assms(2) have "length ?t = fileIndex st" by (simp add: steady_def)
  ultimately show ?thesis by simp
qed

lemma write_files_processed:
  assumes "write_files E st = Some (b, st')"
  shows "(\<forall>f \<in> set (take (fileIndex st) (files st)). readFile E f \<noteq> None) \<longrightarrow>
         (\<forall>f \<in> set (take (fileIndex st') (files st')). readFile E f \<noteq> None)"
  using assms
proof (induction rule: write_files_induct)
  case (finished st)
  then show ?case by simp
next
  case (suspended st st1)
  show ?case
  proof (cases "readFile E (files st ! fileIndex st)")
    case None
    with suspended(2) addFile_None [OF None, of st] show ?thesis by auto
  next
    case (Some code)
    then have rd: "readFile E (files st ! fileIndex st) \<noteq> None" by simp
    from addFile_extends [of st E "files st ! fileIndex st"] suspended(2)
    obtain new where n: "files st1 = files st @ new" by (auto simp: extends_def)
    from n suspended(1) addFile_chunk(2) [OF suspended(1) rd suspended(2)]
    have "take (fileIndex st1) (files st1) = take (fileIndex st) (files st) @ [files st ! fileIndex st]"
      by (simp add: take_Suc_conv_app_nth)
    with rd show ?thesis by auto
  qed
next
  case (continued st st1 b st')
  from continued(2) have rd: "readFile E (files st ! fileIndex st) \<noteq> None"
    using addFile_None [of E "files st ! fileIndex st" st] by auto
  from addFile_extends [of st E "files st ! fileIndex st"] continued(2)
  obtain new where n: "files st1 = files st @ new" by (auto simp: extends_def)
  from n continued(1) addFile_chunk(2) [OF continued(1) rd continued(2)]
  have "take (fileIndex st1) (files st1) = take (fileIndex st) (files st) @ [files st ! fileIndex st]"
    by (simp add: take_Suc_conv_app_nth)
  with rd continued(4) show ?case by auto
qed

lemma read_step_written:
  assumes fin: "finite (dom (readFile E))" and h: "steady E st" and hw: "headerWritten st"
    and ne: "\<not> ended st"
  shows "\<exists>st1. read E st = Some st1
           \<and> (ended st1
               \<or> (stuck E st1 \<and> scheduled st1 \<noteq> [])
               \<or> (steady E st1 \<and> headerWritten st1 \<and> remaining E st1 < remaining E st))"
proof -
  from h have d: "distinct (files st)" and le: "fileIndex st \<le> length (files st)"
    and pr: "\<forall>f \<in> set (take (fileIndex st) (files st)). readFile E f \<noteq> None"
    and sc: "scheduled st = []" by (simp_all add: steady_def)
  from write_files_returns [OF fin d] obtain b s2 where w: "write_files E st = Some (b, s2)" by force
  then have "read E st \<noteq> None"
    using hw by (simp add: read_def continueProcessing_headerWritten)
  then obtain st1 where r: "read E st = Some st1" by blast
  from read_outcome_written [OF hw ne r] show ?thesis
  proof (elim disjE conjE)
    assume "ended st1"
    with r show ?thesis by simp
  next
    assume "stuck E st1" "scheduled st1 = scheduled st @ [ReadError (files st1 ! fileIndex st1)]"
    with r show ?thesis by simp
  next
    assume ne1: "\<not> ended st1" and s1: "scheduled st1 = scheduled st" and hw1: "headerWritten st1"
    from r w hw ne1 have b: "\<not> b" and eq: "st1 = s2"
      by (auto simp: read_def continueProcessing_headerWritten ended_def split: if_splits)
    from write_files_extends [OF w] d have d2: "distinct (files s2)"
      by (auto dest: extends_appended appended_distinct)
    from write_files_chunks [OF w] le have le2: "fileIndex s2 \<le> length (files s2)" by blast
    from write_files_processed [OF w] pr
    have pr2: "\<forall>f \<in> set (take (fileIndex s2) (files s2)). readFile E f \<noteq> None" by blast
    from d2 le2 pr2 s1 sc eq have h2: "steady E s2" by (simp add: steady_def)
    from write_files_progress [OF w] b s1 eq have "fileIndex st < fileIndex s2" by simp
    moreover from steady_cursor [OF fin h2] have "fileIndex s2 \<le> card (dom (readFile E))" .
    ultimately have "remaining E s2 < remaining E st" using hw hw1 eq by (simp add: remaining_def)
    with r h2 hw1 eq show ?thesis by simp
  qed
qed

lemma read_step:
  assumes fin: "finite (dom (readFile E))" and h: "steady E st" and ne: "\<not> ended st"
  shows "\<exists>st1. read E st = Some st1
           \<and> (ended st1
               \<or> (stuck E st1 \<and> scheduled st1 \<noteq> [])
               \<or> (steady E st1 \<and> remaining E st1 < remaining E st))"
proof (cases "headerWritten st")
  case True
  from read_step_written [OF fin h True ne] show ?thesis by blast
next
  case False
  let ?s = "st\<lparr>headerWritten := True, pushed := pushed st @ [Data (HEADER E)]\<rparr>"
  have hs: "steady E ?s" using h by (simp add: steady_def)
  have nes: "\<not> ended ?s" using ne by (simp add: ended_def)
  have rs: "remaining E ?s < remaining E st" using False by (simp add: remaining_def)
  show ?thesis
  proof (cases "ready E (length (pushed st))")
    case False
    with \<open>\<not> headerWritten st\<close> have "read E st = Some ?s" by (simp add: read_def continueProcessing_header)
    with hs rs show ?thesis by simp
  next
    case True
    with \<open>\<not> headerWritten st\<close> have "read E st = read E ?s" by (simp add: read_def continueProcessing_header)
    with read_step_written [OF fin hs _ nes] rs show ?thesis by force
  qed
qed

lemma reads_settle:
  assumes fin: "finite (dom (readFile E))"
  shows "steady E st \<Longrightarrow> remaining E st < n \<Longrightarrow>
           \<exists>st'. reads n E st = Some st' \<and> (ended st' \<or> (stuck E st' \<and> scheduled st' \<noteq> []))"
proof (induction n arbitrary: st)
  case 0
  then show ?case by simp
next
  case (Suc n)
  show ?case
  proof (cases "ended st")
    case True
    then show ?thesis by simp
  next
    case False
    from read_step [OF fin Suc.prems(1) False] obtain st1 where
      r: "read E st = Some st1"
      and p: "ended st1 \<or> (stuck E st1 \<and> scheduled st1 \<noteq> [])
               \<or> (steady E st1 \<and> remaining E st1 < remaining E st)" by blast
    from p show ?thesis
    proof (elim disjE conjE)
      assume "ended st1"
      with r False reads_ended [of st1 n E] show ?thesis by simp
    next
      assume s: "stuck E st1" and e: "scheduled st1 \<noteq> []"
      let ?st' = "st1\<lparr>scheduled := scheduled st1 @ replicate n (ReadError (files st1 ! fileIndex st1))\<rparr>"
      from s have "stuck E ?st'" by (simp add: stuck_def ended_def)
      moreover from e have "scheduled ?st' \<noteq> []" by simp
      ultimately show ?thesis using stuck_reads [OF s, of n] r False by simp
    next
      assume h1: "steady E st1" and "remaining E st1 < remaining E st"
      with Suc.prems(2) have "remaining E st1 < n" by simp
      from Suc.IH [OF h1 this] r False show ?thesis by simp
    qed
  qed
qed

lemma runs_settle:
  assumes "finite (dom (readFile E))"
  shows "\<exists>st. reads (card (dom (readFile E)) + 2) E (constructor E entryModulePath options) = Some st
           \<and> (ended st \<or> (stuck E st \<and> scheduled st \<noteq> []))"
proof -
  let ?c = "constructor E entryModulePath options"
  have h: "steady E ?c" by (simp add: steady_def constructor_def)
  have "remaining E ?c < card (dom (readFile E)) + 2" by (simp add: remaining_def constructor_def)
  from reads_settle [OF assms h this] show ?thesis .
qed

lemma continueProcessing_readable:
  assumes "resolves_readable E" "readable E st" "continueProcessing E st = Some st'"
  shows "readable E st'"
proof -
  have written: "readable E s'" if "headerWritten s" "readable E s" "continueProcessing E s = Some s'" for s s'
  proof -
    from that(1,3) obtain b s2 where w: "write_files E s = Some (b, s2)"
      by (auto simp: continueProcessing_headerWritten split: option.splits)
    from write_files_readable [OF w assms(1)] that(2) have "readable E s2" by simp
    with that(1,3) w show ?thesis
      by (auto simp: continueProcessing_headerWritten readable_def split: if_splits)
  qed
  show ?thesis
  proof (cases "headerWritten st")
    case True
    from written [OF True assms(2,3)] show ?thesis .
  next
    case False
    let ?s = "st\<lparr>headerWritten := True, pushed := pushed st @ [Data (HEADER E)]\<rparr>"
    have rs: "readable E ?s" using assms(2) by (simp add: readable_def)
    show ?thesis
    proof (cases "ready E (length (pushed st))")
      case True
      with False assms(3) have "continueProcessing E ?s = Some st'" by (simp add: continueProcessing_header)
      from written [OF _ rs this] show ?thesis by simp
    next
      case nr: False
      with False assms(3) have "st' = ?s" by (simp add: continueProcessing_header)
      with rs show ?thesis by simp
    qed
  qed
qed

lemma reads_readable:
  assumes "resolves_readable E"
  shows "readable E st \<Longrightarrow> reads n E st = Some st' \<Longrightarrow> readable E st'"
proof (induction n arbitrary: st)
  case 0
  then show ?case by simp
next
  case (Suc n)
  show ?case
  proof (cases "ended st")
    case True
    with Suc.prems show ?thesis by simp
  next
    case False
    with Suc.prems(2) obtain st1 where r: "read E st = Some st1" and rs: "reads n E st1 = Some st'"
      by (auto split: option.splits)
    from continueProcessing_readable [OF assms Suc.prems(1)] r have "readable E st1"
      by (simp add: read_def)
    from Suc.IH [OF this rs] show ?thesis .
  qed
qed

lemma runs_end:
  assumes "finite (dom (readFile E))"
    and "readFile E entryModulePath \<noteq> None"
    and "\<forall>name dir flt p. resolveSync E name dir flt = Some p \<longrightarrow> readFile E p \<noteq> None"
  shows "\<exists>st. reads (card (dom (readFile E)) + 2) E (constructor E entryModulePath options) = Some st
           \<and> ended st"
proof -
  let ?c = "constructor E entryModulePath options"
  from assms(3) have cl: "resolves_readable E" by (simp add: resolves_readable_def)
  from assms(2) have rc: "readable E ?c" by (simp add: readable_def constructor_def)
  from runs_settle [OF assms(1), of entryModulePath options] obtain st where
    st: "reads (card (dom (readFile E)) + 2) E ?c = Some st"
    and p: "ended st \<or> (stuck E st \<and> scheduled st \<noteq> [])" by blast
  from reads_readable [OF cl rc st] have "readable E st" .
  then have "\<not> stuck E st" by (auto simp: stuck_def readable_def)
  with st p show ?thesis by blast
qed

lemma reads_return:
  assumes "finite (dom (readFile E))"
  shows "\<exists>st. reads n E (constructor E entryModulePath options) = Some st"
  using reads_returns [OF assms, of "constructor E entryModulePath options" n]
  by (auto simp: constructor_def)

lemma write_files_failure:
  assumes "write_files E st = Some (b, st')"
  shows "scheduled st' \<noteq> scheduled st \<longrightarrow>
           write_files (E\<lparr>ready := \<lambda>n. True\<rparr>) st = Some (False, st')"
  using assms
proof (induction rule: write_files_induct)
  case (finished st)
  then show ?case by simp
next
  case (suspended st st1)
  let ?T = "E\<lparr>ready := \<lambda>n. True\<rparr>"
  show ?case
  proof (cases "readFile E (files st ! fileIndex st)")
    case None
    then have "readFile ?T (files st ! fileIndex st) = None" by simp
    from addFile_None [OF this, of st] addFile_None [OF None, of st] suspended
    show ?thesis by (subst write_files.simps) simp
  next
    case (Some code)
    with addFile_Some(1) [OF Some, of st] suspended(2) show ?thesis by simp
  qed
next
  case (continued st st1 b st')
  from continued(2) have r: "readFile E (files st ! fileIndex st) \<noteq> None"
    using addFile_None [of E "files st ! fileIndex st" st] by auto
  then obtain code where c: "readFile E (files st ! fileIndex st) = Some code" by blast
  from write_files_ready_step [OF continued(1) r] continued(2)
  have w: "write_files (E\<lparr>ready := \<lambda>n. True\<rparr>) st = write_files (E\<lparr>ready := \<lambda>n. True\<rparr>) st1"
    by simp
  from addFile_Some(1) [OF c, of st] continued(2) have s: "scheduled st1 = scheduled st" by simp
  from continued(4) w s show ?case by simp
qed

lemma read_failure:
  assumes r: "read E st = Some st1" and s: "scheduled st1 \<noteq> scheduled st"
  shows "continueProcessing (E\<lparr>ready := \<lambda>n. True\<rparr>) st = Some st1"
proof -
  let ?T = "E\<lparr>ready := \<lambda>n. True\<rparr>"
  have written: "continueProcessing ?T s = Some s1"
    if "headerWritten s" "read E s = Some s1" "scheduled s1 \<noteq> scheduled s" for s s1
  proof -
    from that(1,2) obtain b s2 where w: "write_files E s = Some (b, s2)"
      by (auto simp: read_def continueProcessing_headerWritten split: option.splits)
    from write_files_outcome [OF w] have "b \<longrightarrow> scheduled s2 = scheduled s" by auto
    with that w have nb: "\<not> b" and s1: "s1 = s2"
      by (auto simp: read_def continueProcessing_headerWritten split: if_splits)
    with write_files_failure [OF w] that(3) have "write_files ?T s = Some (False, s1)" by simp
    with that(1) show ?thesis by (simp add: continueProcessing_headerWritten)
  qed
  show ?thesis
  proof (cases "headerWritten st")
    case True
    from written [OF True r s] show ?thesis .
  next
    case False
    let ?s = "st\<lparr>headerWritten := True, pushed := pushed st @ [Data (HEADER E)]\<rparr>"
    from r s False have g: "ready E (length (pushed st))" and r': "read E ?s = Some st1"
      by (auto simp: read_def continueProcessing_header split: if_splits)
    from written [of ?s st1] r' s have "continueProcessing ?T ?s = Some st1" by simp
    with False show ?thesis by (simp add: continueProcessing_header)
  qed
qed

lemma reads_failed_unconstrained:
  assumes "scheduled st0 = []" "reads n E st0 = Some st" "scheduled st \<noteq> []"
  shows "\<exists>s. continueProcessing (E\<lparr>ready := \<lambda>n. True\<rparr>) st0 = Some s
            \<and> st = s\<lparr>scheduled := scheduled st\<rparr>"
  using assms
proof (induction n arbitrary: st0)
  case 0
  then show ?case by simp
next
  case (Suc n)
  show ?case
  proof (cases "ended st0")
    case True
    with Suc.prems show ?thesis by simp
  next
    case False
    with Suc.prems(2) obtain st1 where r: "read E st0 = Some st1" and rs: "reads n E st1 = Some st"
      by (auto split: option.splits)
    from read_outcome [OF False r] show ?thesis
    proof (elim disjE conjE)
      assume "ended st1" "scheduled st1 = scheduled st0"
      with rs reads_ended [of st1 n E] Suc.prems(1,3) show ?thesis by simp
    next
      assume "scheduled st1 = scheduled st0"
        and c: "continueProcessing (E\<lparr>ready := \<lambda>n. True\<rparr>) st1
                = continueProcessing (E\<lparr>ready := \<lambda>n. True\<rparr>) st0"
      with Suc.IH [of st1] Suc.prems(1,3) rs show ?thesis by simp
    next
      assume s: "stuck E st1" and e: "scheduled st1 = scheduled st0 @ [ReadError (files st1 ! fileIndex st1)]"
      then have "scheduled st1 \<noteq> scheduled st0" by simp
      from read_failure [OF r this] have c: "continueProcessing (E\<lparr>ready := \<lambda>n. True\<rparr>) st0 = Some st1" .
      from stuck_reads [OF s, of n] rs
      have "st = st1\<lparr>scheduled := scheduled st1 @ replicate n (ReadError (files st1 ! fileIndex st1))\<rparr>"
        by simp
      then have "st = st1\<lparr>scheduled := scheduled st\<rparr>" by simp
      with c show ?thesis by blast
    qed
  qed
qed

lemma failed_runs_agree:
  assumes "reads n E (constructor E entryModulePath options) = Some st" "scheduled st \<noteq> []"
  shows "\<exists>s. continueProcessing (E\<lparr>ready := \<lambda>k. True\<rparr>) (constructor E entryModulePath options) = Some s
            \<and> st = s\<lparr>scheduled := scheduled st\<rparr>"
  using reads_failed_unconstrained [OF _ assms] by (simp add: constructor_def)


lemma ended_runs_agree:
  assumes "reads n E (constructor E entryModulePath options) = Some st"
    and "ended st"
  shows "continueProcessing (E\<lparr>ready := \<lambda>k. True\<rparr>) (constructor E entryModulePath options) = Some st
       \<and> (\<forall>r n' st'. reads n' (E\<lparr>ready := r\<rparr>) (constructor E entryModulePath options) = Some st'
             \<and> ended st' \<longrightarrow> st' = st)
       \<and> (\<exists>chunks. pushed st = Data (HEADER E) # map Data chunks @ [Data (FOOTER E), EOF]
             \<and> length chunks = length (files st)
             \<and> (\<forall>i < length chunks. \<exists>body.
                   chunks ! i = file_header E (files st) (files st ! i) @ body
                                @ file_footer E (files st) (files st ! i)))"
proof -
  let ?c = "constructor E entryModulePath options"
  let ?T = "E\<lparr>ready := \<lambda>k. True\<rparr>"
  have c: "scheduled ?c = []" "\<not> ended ?c" "\<not> headerWritten ?c" "pushed ?c = []" "fileIndex ?c = 0"
    by (simp_all add: constructor_def ended_def)
  from reads_ended_unconstrained [OF c(1,2) assms] have 1: "continueProcessing ?T ?c = Some st" .
  have 2: "st' = st" if "reads n' (E\<lparr>ready := r\<rparr>) ?c = Some st' \<and> ended st'" for r n' st'
  proof -
    from that have "reads n' (E\<lparr>ready := r\<rparr>) (constructor (E\<lparr>ready := r\<rparr>) entryModulePath options) = Some st'"
      and e: "ended st'" by (simp_all add: constructor_ready)
    from reads_ended_unconstrained [OF _ _ this] c(1,2)
    have "continueProcessing ?T ?c = Some st'" by (simp add: constructor_ready)
    with 1 show ?thesis by simp
  qed
  let ?s = "?c\<lparr>headerWritten := True, pushed := [Data (HEADER E)]\<rparr>"
  from 1 c have cs: "continueProcessing ?T ?s = Some st"
    by (simp add: continueProcessing_header)
  then obtain b s2 where w: "write_files ?T ?s = Some (b, s2)"
    by (auto simp: continueProcessing_headerWritten split: option.splits)
  have nes: "\<not> ended ?s" by (simp add: ended_def constructor_def)
  from write_files_extends [OF w] nes have "\<not> ended s2" by (rule extends_not_ended)
  with cs w assms(2) have b: b and st: "st = s2\<lparr>pushed := pushed s2 @ [Data (FOOTER E), EOF]\<rparr>"
    by (auto simp: continueProcessing_headerWritten split: if_splits)
  from write_files_outcome [OF w] b have ge: "\<not> fileIndex s2 < length (files s2)" by auto
  from write_files_chunks [OF w] obtain chunks where
    ch: "pushed s2 = pushed ?s @ map Data chunks" "fileIndex s2 = fileIndex ?s + length chunks"
        "fileIndex s2 \<le> length (files s2)" "wrapped ?T (files s2) (fileIndex ?s) chunks"
    by (auto simp: constructor_def)
  from ch(2,3) ge have l: "length chunks = length (files st)" by (simp add: st constructor_def)
  have p: "pushed st = Data (HEADER E) # map Data chunks @ [Data (FOOTER E), EOF]"
    using ch(1) st by simp
  have wr: "\<forall>i < length chunks. \<exists>body.
                   chunks ! i = file_header E (files st) (files st ! i) @ body
                                @ file_footer E (files st) (files st ! i)"
    using ch(4) by (simp add: wrapped_def st constructor_def file_header_def file_footer_def)
  from 1 2 p l wr show ?thesis by blast
qed



text \<open>
  C4. With finitely many readable files, a run comes, for every consumer and whatever it
  answers to each chunk, to its end or to a file that cannot be read, within as many
  calls of \<open>_read\<close> as there are readable files, and two more; it comes to its end if the
  entry file and every path \<open>resolve.sync\<close> returns can be read. A run that ends ends in
  the state in which the one call of \<open>_read\<close> of a consumer that is always ready ends: the
  same file list and identities, the same chunks. So two runs that end, with any two
  consumers, end in the same state. The chunks are the header, once, one chunk for each
  file of the list in the order of the list, wrapped in the header and footer of its
  file, the footer and the end marker. A run stopped by a file that cannot be read is,
  but for the number of errors scheduled, in the state in which that one call is stopped.
\<close>

theorem backpressure_robustness:
  "(finite (dom (readFile E)) \<and> readFile E entryModulePath \<noteq> None
      \<and> (\<forall>name dir flt p. resolveSync E name dir flt = Some p \<longrightarrow> readFile E p \<noteq> None)
    \<longrightarrow> (\<exists>st. reads (card (dom (readFile E)) + 2) E (constructor E entryModulePath options) = Some st
            \<and> ended st))
   \<and> (finite (dom (readFile E))
    \<longrightarrow> (\<exists>st. reads (card (dom (readFile E)) + 2) E (constructor E entryModulePath options) = Some st
            \<and> (ended st \<or> scheduled st \<noteq> [])))
   \<and> (\<forall>n st. reads n E (constructor E entryModulePath options) = Some st \<and> ended st \<longrightarrow>
         continueProcessing (E\<lparr>ready := \<lambda>k. True\<rparr>) (constructor E entryModulePath options) = Some st
       \<and> (\<forall>r n' st'. reads n' (E\<lparr>ready := r\<rparr>) (constructor E entryModulePath options) = Some st'
             \<and> ended st' \<longrightarrow> st' = st)
       \<and> (\<exists>chunks. pushed st = Data (HEADER E) # map Data chunks @ [Data (FOOTER E), EOF]
             \<and> length chunks = length (files st)
             \<and> (\<forall>i < length chunks. \<exists>body.
                   chunks ! i = file_header E (files st) (files st ! i) @ body
                                @ file_footer E (files st) (files st ! i))))
   \<and> (\<forall>n st. reads n E (constructor E entryModulePath options) = Some st \<and> scheduled st \<noteq> [] \<longrightarrow>
         (\<exists>s. continueProcessing (E\<lparr>ready := \<lambda>k. True\<rparr>) (constructor E entryModulePath options) = Some s
              \<and> st = s\<lparr>scheduled := scheduled st\<rparr>))"
proof (intro conjI impI allI)
  assume "finite (dom (readFile E)) \<and> readFile E entryModulePath \<noteq> None
      \<and> (\<forall>name dir flt p. resolveSync E name dir flt = Some p \<longrightarrow> readFile E p \<noteq> None)"
  then show "\<exists>st. reads (card (dom (readFile E)) + 2) E (constructor E entryModulePath options) = Some st
            \<and> ended st"
    by (elim conjE) (rule runs_end)
next
  assume "finite (dom (readFile E))"
  from runs_settle [OF this, of entryModulePath options]
  show "\<exists>st. reads (card (dom (readFile E)) + 2) E (constructor E entryModulePath options) = Some st
            \<and> (ended st \<or> scheduled st \<noteq> [])"
    by blast
next
  fix n st
  assume "reads n E (constructor E entryModulePath options) = Some st \<and> scheduled st \<noteq> []"
  then show "\<exists>s. continueProcessing (E\<lparr>ready := \<lambda>k. True\<rparr>) (constructor E entryModulePath options) = Some s
              \<and> st = s\<lparr>scheduled := scheduled st\<rparr>"
    by (elim conjE) (rule failed_runs_agree)
next
  fix n st
  assume "reads n E (constructor E entryModulePath options) = Some st \<and> ended st"
  then have r: "reads n E (constructor E entryModulePath options) = Some st" and e: "ended st"
    by simp_all
  note a = ended_runs_agree [OF r e]
  show "continueProcessing (E\<lparr>ready := \<lambda>k. True\<rparr>) (constructor E entryModulePath options) = Some st"
    by (rule a [THEN conjunct1])
  show "\<exists>chunks. pushed st = Data (HEADER E) # map Data chunks @ [Data (FOOTER E), EOF]
             \<and> length chunks = length (files st)
             \<and> (\<forall>i < length chunks. \<exists>body.
                   chunks ! i = file_header E (files st) (files st ! i) @ body
                                @ file_footer E (files st) (files st ! i))"
    by (rule a [THEN conjunct2, THEN conjunct2])
  fix r n' st'
  assume "reads n' (E\<lparr>ready := r\<rparr>) (constructor E entryModulePath options) = Some st' \<and> ended st'"
  then show "st' = st"
    by (rule a [THEN conjunct2, THEN conjunct1, rule_format])
qed

theorem backpressure_robustness_witness:
  "finite (dom (readFile (sample_env\<lparr>ready := \<lambda>n. False\<rparr>)))
   \<and> readFile (sample_env\<lparr>ready := \<lambda>n. False\<rparr>) ''/p/a.js'' \<noteq> None
   \<and> (\<exists>st. reads (card (dom (readFile (sample_env\<lparr>ready := \<lambda>n. False\<rparr>))) + 2)
              (sample_env\<lparr>ready := \<lambda>n. False\<rparr>)
              (constructor (sample_env\<lparr>ready := \<lambda>n. False\<rparr>) ''/p/a.js'' sample_options) = Some st
      \<and> ended st
      \<and> reads 1 sample_env (constructor sample_env ''/p/a.js'' sample_options) = Some st
      \<and> files st = [''/p/a.js'', ''/p/b.js'']
      \<and> pushed st = [Data ''H;'', Data ''<0:/p/a.js>x=__require(1,0);</0>'',
                      Data (''<1:/p/b.js>y=__getDirname('' @ [dquote] @ ''b.js'' @ [dquote] @ '')</1>''),
                      Data '';F'', EOF])
   \<and> (\<exists>st s. reads 3 (missing_file_env\<lparr>ready := \<lambda>n. False\<rparr>)
                (constructor (missing_file_env\<lparr>ready := \<lambda>n. False\<rparr>) ''/p/a.js'' sample_options) = Some st
      \<and> scheduled st = [ReadError ''/p/b.js'']
      \<and> continueProcessing missing_file_env (constructor missing_file_env ''/p/a.js'' sample_options) = Some s
      \<and> st = s\<lparr>scheduled := scheduled st\<rparr>
      \<and> pushed s = [Data ''H;'', Data ''<0:/p/a.js>x=__require(1,0);</0>''])"
proof -
  let ?E = "sample_env\<lparr>ready := \<lambda>n. False\<rparr>"
  let ?c = "constructor sample_env ''/p/a.js'' sample_options"
  have c: "constructor ?E ''/p/a.js'' sample_options = ?c" by (simp add: constructor_def)
  have h1: "finite (dom (readFile ?E))" by (simp add: sample_env_def finite_dom_map_of)
  have h2: "readFile ?E ''/p/a.js'' \<noteq> None" by (simp add: sample_env_def)
  have h3: "\<forall>name dir flt p. resolveSync ?E name dir flt = Some p \<longrightarrow> readFile ?E p \<noteq> None"
    by (auto simp: sample_env_def split: if_splits)
  note t = backpressure_robustness [of ?E "''/p/a.js''" sample_options]
  from t [THEN conjunct1] h1 h2 h3 obtain st where
    st: "reads (card (dom (readFile ?E)) + 2) ?E (constructor ?E ''/p/a.js'' sample_options) = Some st"
    and e: "ended st" by blast
  have "reads 1 sample_env ?c \<noteq> None" by code_simp
  then obtain st1 where st1: "reads 1 sample_env ?c = Some st1" by blast
  have "map_option (\<lambda>s. (ended s, files s, pushed s)) (reads 1 sample_env ?c)
         = Some (True, [''/p/a.js'', ''/p/b.js''],
                 [Data ''H;'', Data ''<0:/p/a.js>x=__require(1,0);</0>'',
                      Data (''<1:/p/b.js>y=__getDirname('' @ [dquote] @ ''b.js'' @ [dquote] @ '')</1>''),
                      Data '';F'', EOF])"
    by code_simp
  with st1 have e1: "ended st1" and f: "files st1 = [''/p/a.js'', ''/p/b.js'']"
    and p: "pushed st1 = [Data ''H;'', Data ''<0:/p/a.js>x=__require(1,0);</0>'',
                      Data (''<1:/p/b.js>y=__getDirname('' @ [dquote] @ ''b.js'' @ [dquote] @ '')</1>''),
                      Data '';F'', EOF]"
    by simp_all
  have E: "?E\<lparr>ready := \<lambda>n. True\<rparr> = sample_env" by (simp add: sample_env_def)
  from st e have "reads (card (dom (readFile ?E)) + 2) ?E (constructor ?E ''/p/a.js'' sample_options) = Some st
                  \<and> ended st" by simp
  note u = t [THEN conjunct2, THEN conjunct2, THEN conjunct1, rule_format, OF this,
             THEN conjunct2, THEN conjunct1, rule_format, of 1 "\<lambda>n. True" st1]
  from u st1 e1 E c have "st1 = st" by simp
  with st e st1 f p have A: "\<exists>st. reads (card (dom (readFile ?E)) + 2) ?E
              (constructor ?E ''/p/a.js'' sample_options) = Some st
      \<and> ended st
      \<and> reads 1 sample_env ?c = Some st
      \<and> files st = [''/p/a.js'', ''/p/b.js'']
      \<and> pushed st = [Data ''H;'', Data ''<0:/p/a.js>x=__require(1,0);</0>'',
                      Data (''<1:/p/b.js>y=__getDirname('' @ [dquote] @ ''b.js'' @ [dquote] @ '')</1>''),
                      Data '';F'', EOF]"
    by blast
  let ?M = "missing_file_env\<lparr>ready := \<lambda>n. False\<rparr>"
  let ?m = "constructor ?M ''/p/a.js'' sample_options"
  have "reads 3 ?M ?m \<noteq> None" by code_simp
  then obtain sm where sm: "reads 3 ?M ?m = Some sm" by blast
  have "map_option scheduled (reads 3 ?M ?m) = Some [ReadError ''/p/b.js'']" by code_simp
  with sm have sc: "scheduled sm = [ReadError ''/p/b.js'']" by simp
  then have "reads 3 ?M ?m = Some sm \<and> scheduled sm \<noteq> []" using sm by simp
  from backpressure_robustness [of ?M "''/p/a.js''" sample_options, THEN conjunct2, THEN conjunct2,
         THEN conjunct2, rule_format, OF this]
  obtain s where s: "continueProcessing (?M\<lparr>ready := \<lambda>k. True\<rparr>) ?m = Some s"
    and eq: "sm = s\<lparr>scheduled := scheduled sm\<rparr>" by blast
  have M: "?M\<lparr>ready := \<lambda>k. True\<rparr> = missing_file_env"
    by (simp add: missing_file_env_def sample_env_def)
  have m: "?m = constructor missing_file_env ''/p/a.js'' sample_options" by (simp add: constructor_def)
  have "map_option pushed (continueProcessing missing_file_env (constructor missing_file_env ''/p/a.js'' sample_options))
          = Some [Data ''H;'', Data ''<0:/p/a.js>x=__require(1,0);</0>'']"
    by code_simp
  with s M m have ps: "pushed s = [Data ''H;'', Data ''<0:/p/a.js>x=__require(1,0);</0>'']" by simp
  from sm sc s eq ps M m have B: "\<exists>st s. reads 3 ?M ?m = Some st
      \<and> scheduled st = [ReadError ''/p/b.js'']
      \<and> continueProcessing missing_file_env (constructor missing_file_env ''/p/a.js'' sample_options) = Some s
      \<and> st = s\<lparr>scheduled := scheduled st\<rparr>
      \<and> pushed s = [Data ''H;'', Data ''<0:/p/a.js>x=__require(1,0);</0>'']"
    by (intro exI [of _ sm] exI [of _ s]) simp
  from h1 h2 A B show ?thesis by (intro conjI)
qed

subsection \<open>Path tokens\<close>

text \<open>
  C6. The replacement for \<open>__dirname\<close> and the one for \<open>__filename\<close> are built from the same
  text, \<open>JSON.stringify\<close> of the path of the file relative to the directory of the output
  path. They are replacement strings, in which \<open>replace\<close> reads a dollar sign with the code
  unit behind it as a pattern. For the file \<open>/p/$&.js\<close> and the output path \<open>/p/out.js\<close> the
  relative path is \<open>$&.js\<close>, and \<open>$&\<close> stands for the matched token: the accessor calls
  carry the arguments \<open>__dirname.js\<close> and \<open>__filename.js\<close>, neither of them the relative path
  and the two not the same.
\<close>

theorem path_tokens_dollar_pattern:
  "outputPath sample_options = Some ''/p/out.js'' \<and> browser sample_options = Jfalsy
   \<and> JSON_stringify sample_env (path_relative sample_env (path_dirname sample_env ''/p/out.js'') ''/p/$&.js'')
       = dquote # ''$&.js'' @ [dquote]
   \<and> replace_tokens sample_env sample_options ''/p/$&.js'' ''d=__dirname;f=__filename''
       = ''d=__getDirname('' @ dquote # ''__dirname.js'' @ dquote # '');f=__getFilename(''
           @ dquote # ''__filename.js'' @ dquote # '')''
   \<and> map_option emitted
         (reads 1 (sample_env\<lparr>readFile := map_of [(''/p/$&.js'', ''d=__dirname;f=__filename'')]\<rparr>)
           (constructor sample_env ''/p/$&.js'' sample_options))
       = Some (''H;<0:/p/${path}.js>d=__getDirname('' @ dquote # ''__dirname.js'' @ dquote
                 # '');f=__getFilename('' @ dquote # ''__filename.js'' @ dquote # '')</0>;F'')"
  by code_simp

subsection \<open>Third-party modules\<close>

lemma unescape_first_hd: "\<exists>t. unescape_first (b # s) = b # t"
  by (cases s) auto

lemma unescape_first_hd2: "b \<noteq> backslash \<Longrightarrow> \<exists>t. unescape_first (b # c # s) = b # c # t"
  using unescape_first_hd [of c s] by auto

lemma is_fs_path_unescape_first: "is_fs_path (unescape_first n) \<longleftrightarrow> is_fs_path n"
proof (cases n)
  case Nil
  then show ?thesis by simp
next
  case (Cons a s)
  note n = this
  show ?thesis
  proof (cases s)
    case Nil
    with n show ?thesis by simp
  next
    case (Cons b s')
    note s = this
    show ?thesis
    proof (cases "a = backslash")
      case True
      with n s show ?thesis by (auto simp: is_fs_path_def)
    next
      case False
      note a = this
      show ?thesis
      proof (cases s')
        case Nil
        with n s a show ?thesis by (auto simp: is_fs_path_def)
      next
        case (Cons c s'')
        show ?thesis
        proof (cases "b = backslash")
          case True
          with n s a Cons show ?thesis by (auto simp: is_fs_path_def)
        next
          case False
          with unescape_first_hd [of c s''] n s a Cons show ?thesis by (auto simp: is_fs_path_def)
        qed
      qed
    qed
  qed
qed


text \<open>
  C8, amended. With \<open>excludeNodeModules\<close> set, a call site whose name does not begin with
  \<open>./\<close>, \<open>../\<close> or \<open>/\<close> is returned as it was matched and the state is left as it was,
  whatever \<open>resolve.sync\<close> would have answered: it is not called and no file is added.
  When the path tokens are not rewritten, or the text of the call site holds neither
  \<open>__dirname\<close> nor \<open>__filename\<close>, the chunk pushed for the file holds the call site as it
  was matched, between what the file header and the text before the call site have
  become and what the text behind it and the file footer have become. A name that begins
  with one of the three prefixes is handled as it is without the option.
\<close>

theorem replacer_excludeNodeModules:
  assumes "excludeNodeModules (opts st)"
  shows "(\<not> prefix ''./'' name \<and> \<not> prefix ''../'' name \<and> \<not> prefix ''/'' name \<longrightarrow>
            (\<forall>r. replacer (E\<lparr>resolveSync := r\<rparr>) filePath m name st = (m, st))
            \<and> (readFile E filePath = Some raw
               \<and> scan_requires (strip_comments raw) = segsA @ Call m name # segsB
               \<and> replace_requires E filePath segsA (st\<lparr>fileIndex := fileIndex st + 1\<rparr>) = (outA, st1)
               \<and> replace_requires E filePath segsB st1 = (outB, st2)
               \<and> (\<not> rewrites_tokens (opts st)
                    \<or> (\<not> sublist ''__dirname'' m \<and> \<not> sublist ''__filename'' m)) \<longrightarrow>
                 (\<exists>X Y. pushed (snd (addFile E filePath st))
                           = pushed st @ [Data (file_header E (files st2) filePath
                                @ (if path_extname E filePath = ''.json'' then ''module.exports = '' else [])
                                @ X @ m @ Y
                                @ file_footer E (files st2) filePath)]
                    \<and> (\<not> rewrites_tokens (opts st)
                          \<or> \<not> has_pattern (token_argument E (opts st) filePath) \<longrightarrow>
                        X = replace_tokens E (opts st) filePath outA
                        \<and> Y = replace_tokens E (opts st) filePath outB))))
       \<and> (prefix ''./'' name \<or> prefix ''../'' name \<or> prefix ''/'' name \<longrightarrow>
            replacer E filePath m name st =
              (case replacer E filePath m name (st\<lparr>opts := (opts st)\<lparr>excludeNodeModules := False\<rparr>\<rparr>) of
                 (r, st') \<Rightarrow> (r, st'\<lparr>opts := opts st\<rparr>)))"
proof (intro conjI impI allI)
  fix r
  assume "\<not> prefix ''./'' name \<and> \<not> prefix ''../'' name \<and> \<not> prefix ''/'' name"
  then have "\<not> is_fs_path name" by (simp add: is_fs_path_def)
  then have "\<not> is_fs_path (unescape_first name)" by (simp add: is_fs_path_unescape_first)
  with assms show "replacer (E\<lparr>resolveSync := r\<rparr>) filePath m name st = (m, st)"
    by (simp add: replacer_def Let_def)
next
  assume n: "\<not> prefix ''./'' name \<and> \<not> prefix ''../'' name \<and> \<not> prefix ''/'' name"
    and h: "readFile E filePath = Some raw
               \<and> scan_requires (strip_comments raw) = segsA @ Call m name # segsB
               \<and> replace_requires E filePath segsA (st\<lparr>fileIndex := fileIndex st + 1\<rparr>) = (outA, st1)
               \<and> replace_requires E filePath segsB st1 = (outB, st2)
               \<and> (\<not> rewrites_tokens (opts st)
                    \<or> (\<not> sublist ''__dirname'' m \<and> \<not> sublist ''__filename'' m))"
  from n have "\<not> is_fs_path name" by (simp add: is_fs_path_def)
  then have nf: "\<not> is_fs_path (unescape_first name)" by (simp add: is_fs_path_unescape_first)
  from h have A: "replace_requires E filePath segsA (st\<lparr>fileIndex := fileIndex st + 1\<rparr>) = (outA, st1)"
    by simp
  from replace_requires_extends [of "st\<lparr>fileIndex := fileIndex st + 1\<rparr>" E filePath segsA] A
  have "opts st1 = opts st" by (simp add: extends_def)
  with assms nf have r: "replacer E filePath m name st1 = (m, st1)"
    by (simp add: replacer_def Let_def)
  from h r have B: "replace_requires E filePath segsB (snd (replacer E filePath m name st1)) = (outB, st2)"
    by simp
  from r have R: "fst (replacer E filePath m name st1) = m" by simp
  from h have rd: "readFile E filePath = Some raw"
    and sc: "scan_requires (strip_comments raw) = segsA @ Call m name # segsB"
    and tf: "\<not> rewrites_tokens (opts st) \<or> (\<not> sublist ''__dirname'' m \<and> \<not> sublist ''__filename'' m)"
    by simp_all
  show "\<exists>X Y. pushed (snd (addFile E filePath st))
                           = pushed st @ [Data (file_header E (files st2) filePath
                                @ (if path_extname E filePath = ''.json'' then ''module.exports = '' else [])
                                @ X @ m @ Y
                                @ file_footer E (files st2) filePath)]
                    \<and> (\<not> rewrites_tokens (opts st)
                          \<or> \<not> has_pattern (token_argument E (opts st) filePath) \<longrightarrow>
                        X = replace_tokens E (opts st) filePath outA
                        \<and> Y = replace_tokens E (opts st) filePath outB)"
    by (rule call_site_kept [OF rd sc A R B tf])
next
  assume "prefix ''./'' name \<or> prefix ''../'' name \<or> prefix ''/'' name"
  then have "is_fs_path name" by (auto simp: is_fs_path_def)
  then have p: "is_fs_path (unescape_first name)" by (simp add: is_fs_path_unescape_first)
  show "replacer E filePath m name st =
              (case replacer E filePath m name (st\<lparr>opts := (opts st)\<lparr>excludeNodeModules := False\<rparr>\<rparr>) of
                 (r, st') \<Rightarrow> (r, st'\<lparr>opts := opts st\<rparr>))"
    using p by (auto simp: replacer_def Let_def is_excluded_def split: option.splits)
qed

theorem replacer_excludeNodeModules_witness:
  "excludeNodeModules (opts (constructor sample_env ''/p/a.js'' (sample_options\<lparr>excludeNodeModules := True\<rparr>)))
   \<and> \<not> prefix ''./'' ''lodash'' \<and> \<not> prefix ''../'' ''lodash'' \<and> \<not> prefix ''/'' ''lodash''
   \<and> replacer (sample_env\<lparr>resolveSync := \<lambda>name basedir flt. Some ''/p/b.js''\<rparr>) ''/p/a.js''
         ''require('lodash')'' ''lodash''
         (constructor sample_env ''/p/a.js'' (sample_options\<lparr>excludeNodeModules := True\<rparr>))
       = (''require('lodash')'',
          constructor sample_env ''/p/a.js'' (sample_options\<lparr>excludeNodeModules := True\<rparr>))
   \<and> readFile third_party_env ''/p/a.js'' = Some ''x=require('lodash');''
   \<and> scan_requires (strip_comments ''x=require('lodash');'')
       = [Chr CHR ''x'', Chr CHR ''=''] @ Call ''require('lodash')'' ''lodash'' # [Chr CHR '';'']
   \<and> rewrites_tokens (opts (constructor sample_env ''/p/a.js'' (sample_options\<lparr>excludeNodeModules := True\<rparr>)))
   \<and> \<not> sublist ''__dirname'' ''require('lodash')'' \<and> \<not> sublist ''__filename'' ''require('lodash')''
   \<and> pushed (snd (addFile third_party_env ''/p/a.js''
         (constructor sample_env ''/p/a.js'' (sample_options\<lparr>excludeNodeModules := True\<rparr>))))
       = [Data ''<0:/p/a.js>x=require('lodash');</0>'']
   \<and> prefix ''./'' ''./b''
   \<and> fst (replacer sample_env ''/p/a.js'' ''require('./b')'' ''./b''
         (constructor sample_env ''/p/a.js'' (sample_options\<lparr>excludeNodeModules := True\<rparr>)))
       = ''__require(1,0)''"
proof -
  let ?st = "constructor sample_env ''/p/a.js'' (sample_options\<lparr>excludeNodeModules := True\<rparr>)"
  let ?m = "''require('lodash')''"
  have on: "excludeNodeModules (opts ?st)"
    by (simp add: constructor_def sample_options_def)
  have off: "fst (replacer sample_env ''/p/a.js'' ''require('./b')'' ''./b''
               (?st\<lparr>opts := (opts ?st)\<lparr>excludeNodeModules := False\<rparr>\<rparr>)) = ''__require(1,0)''"
    by code_simp
  have np: "\<not> prefix ''./'' ''lodash'' \<and> \<not> prefix ''../'' ''lodash'' \<and> \<not> prefix ''/'' ''lodash''"
    by simp
  have rd: "readFile third_party_env ''/p/a.js'' = Some ''x=require('lodash');''" by code_simp
  have sc: "scan_requires (strip_comments ''x=require('lodash');'')
       = [Chr CHR ''x'', Chr CHR ''=''] @ Call ?m ''lodash'' # [Chr CHR '';'']"
    by code_simp
  have A: "replace_requires third_party_env ''/p/a.js'' [Chr CHR ''x'', Chr CHR ''='']
             (?st\<lparr>fileIndex := fileIndex ?st + 1\<rparr>) = (''x='', ?st\<lparr>fileIndex := fileIndex ?st + 1\<rparr>)"
    by simp
  have B: "replace_requires third_party_env ''/p/a.js'' [Chr CHR '';'']
             (?st\<lparr>fileIndex := fileIndex ?st + 1\<rparr>) = ('';'', ?st\<lparr>fileIndex := fileIndex ?st + 1\<rparr>)"
    by simp
  have rw: "rewrites_tokens (opts ?st)" by code_simp
  have tf: "\<not> sublist ''__dirname'' ?m \<and> \<not> sublist ''__filename'' ?m" by code_simp
  have nd: "\<not> has_pattern (token_argument third_party_env (opts ?st) ''/p/a.js'')" by code_simp
  have hyp: "readFile third_party_env ''/p/a.js'' = Some ''x=require('lodash');''
               \<and> scan_requires (strip_comments ''x=require('lodash');'')
                    = [Chr CHR ''x'', Chr CHR ''=''] @ Call ?m ''lodash'' # [Chr CHR '';'']
               \<and> replace_requires third_party_env ''/p/a.js'' [Chr CHR ''x'', Chr CHR ''='']
                    (?st\<lparr>fileIndex := fileIndex ?st + 1\<rparr>) = (''x='', ?st\<lparr>fileIndex := fileIndex ?st + 1\<rparr>)
               \<and> replace_requires third_party_env ''/p/a.js'' [Chr CHR '';'']
                    (?st\<lparr>fileIndex := fileIndex ?st + 1\<rparr>) = ('';'', ?st\<lparr>fileIndex := fileIndex ?st + 1\<rparr>)
               \<and> (\<not> rewrites_tokens (opts ?st) \<or> (\<not> sublist ''__dirname'' ?m \<and> \<not> sublist ''__filename'' ?m))"
    using rd sc A B tf by blast
  note t = replacer_excludeNodeModules [OF on]
  from t [where name = "''lodash''" and E = sample_env and filePath = "''/p/a.js''" and m = ?m,
          THEN conjunct1, rule_format, OF np, THEN conjunct1, rule_format,
          of "\<lambda>name basedir flt. Some ''/p/b.js''"]
  have a: "replacer (sample_env\<lparr>resolveSync := \<lambda>name basedir flt. Some ''/p/b.js''\<rparr>) ''/p/a.js'' ?m ''lodash'' ?st
             = (?m, ?st)" .
  from t [where name = "''lodash''" and E = third_party_env and filePath = "''/p/a.js''" and m = ?m,
          THEN conjunct1, rule_format, OF np, THEN conjunct2, rule_format, OF hyp]
  obtain X Y where push: "pushed (snd (addFile third_party_env ''/p/a.js'' ?st))
              = pushed ?st @ [Data (file_header third_party_env (files (?st\<lparr>fileIndex := fileIndex ?st + 1\<rparr>)) ''/p/a.js''
                   @ (if path_extname third_party_env ''/p/a.js'' = ''.json'' then ''module.exports = '' else [])
                   @ X @ ?m @ Y
                   @ file_footer third_party_env (files (?st\<lparr>fileIndex := fileIndex ?st + 1\<rparr>)) ''/p/a.js'')]"
    and XY: "\<not> rewrites_tokens (opts ?st) \<or> \<not> has_pattern (token_argument third_party_env (opts ?st) ''/p/a.js'') \<longrightarrow>
               X = replace_tokens third_party_env (opts ?st) ''/p/a.js'' ''x=''
               \<and> Y = replace_tokens third_party_env (opts ?st) ''/p/a.js'' '';''"
    by blast
  have v: "pushed ?st @ [Data (file_header third_party_env (files (?st\<lparr>fileIndex := fileIndex ?st + 1\<rparr>)) ''/p/a.js''
                   @ (if path_extname third_party_env ''/p/a.js'' = ''.json'' then ''module.exports = '' else [])
                   @ replace_tokens third_party_env (opts ?st) ''/p/a.js'' ''x='' @ ?m
                   @ replace_tokens third_party_env (opts ?st) ''/p/a.js'' '';''
                   @ file_footer third_party_env (files (?st\<lparr>fileIndex := fileIndex ?st + 1\<rparr>)) ''/p/a.js'')]
           = [Data ''<0:/p/a.js>x=require('lodash');</0>'']"
    by code_simp
  from push XY nd v have b: "pushed (snd (addFile third_party_env ''/p/a.js'' ?st))
       = [Data ''<0:/p/a.js>x=require('lodash');</0>'']"
    by simp
  from t [where name = "''./b''" and E = sample_env and filePath = "''/p/a.js''" and m = "''require('./b')''",
          THEN conjunct2] off
  have c: "fst (replacer sample_env ''/p/a.js'' ''require('./b')'' ''./b'' ?st) = ''__require(1,0)''"
    by (simp split: prod.splits)
  from on np a rd sc rw tf b c show ?thesis by simp
qed

theorem token_in_reference_counterexample:
  "excludeNodeModules (sample_options\<lparr>excludeNodeModules := True\<rparr>)
   \<and> \<not> prefix ''./'' ''__dirname'' \<and> \<not> prefix ''../'' ''__dirname'' \<and> \<not> prefix ''/'' ''__dirname''
   \<and> call_sites ''x=require('__dirname');'' = [(''require('__dirname')'', ''__dirname'')]
   \<and> map_option (\<lambda>st. (files st, emitted st))
        (reads 1 (sample_env\<lparr>readFile := map_of [(''/p/a.js'', ''x=require('__dirname');'')]\<rparr>)
           (constructor sample_env ''/p/a.js'' (sample_options\<lparr>excludeNodeModules := True\<rparr>)))
       = Some ([''/p/a.js''],
               ''H;<0:/p/a.js>x=require('__getDirname('' @ dquote # ''a.js'' @ dquote # '')');</0>;F'')"
  by code_simp


subsection \<open>Statistics\<close>

text \<open>
  C9. \<open>getStats\<close> throws exactly when the cursor is below the length of the file list.
  Otherwise it returns the file list and the list of excluded add-ons; it changes
  nothing, and once the cursor has reached the length of the list every further call of
  \<open>_read\<close> returns and leaves the value of \<open>getStats\<close> as it was.
\<close>

theorem getStats_spec:
  "(getStats st = Inl StatsNotAvailable \<longleftrightarrow> fileIndex st < length (files st))
   \<and> (\<not> fileIndex st < length (files st) \<longrightarrow> getStats st = Inr (files st, addonsExcluded st))
   \<and> (fileIndex st = length (files st) \<longrightarrow>
        (\<forall>n. \<exists>st'. reads n E st = Some st' \<and> getStats st' = getStats st))"
proof (intro conjI impI allI)
  show "getStats st = Inl StatsNotAvailable \<longleftrightarrow> fileIndex st < length (files st)"
    by (simp add: getStats_def)
  show "getStats st = Inr (files st, addonsExcluded st)" if "\<not> fileIndex st < length (files st)"
    using that by (simp add: getStats_def)
  have step: "\<exists>st'. read E s = Some st' \<and> fileIndex st' = fileIndex s \<and> files st' = files s
                \<and> addonsExcluded st' = addonsExcluded s"
    if "fileIndex s = length (files s)" for s
    using that
    by (auto simp: read_def continueProcessing_def push_def Let_def write_files.simps split: prod.splits)
  show "\<exists>st'. reads n E st = Some st' \<and> getStats st' = getStats st"
    if "fileIndex st = length (files st)" for n
    using that
  proof (induction n arbitrary: st)
    case 0
    then show ?case by simp
  next
    case (Suc n)
    from step [OF Suc.prems] obtain s1 where s1: "read E st = Some s1" "fileIndex s1 = fileIndex st"
      "files s1 = files st" "addonsExcluded s1 = addonsExcluded st" by blast
    with Suc.prems have "fileIndex s1 = length (files s1)" by simp
    from Suc.IH [OF this] obtain st' where "reads n E s1 = Some st'" "getStats st' = getStats s1" by blast
    with s1 show ?case by (auto simp: getStats_def)
  qed
qed

theorem getStats_spec_witness:
  "getStats (constructor sample_env ''/p/a.js'' sample_options) = Inl StatsNotAvailable
   \<and> fileIndex (constructor sample_env ''/p/a.js'' sample_options)
       < length (files (constructor sample_env ''/p/a.js'' sample_options))
   \<and> (\<exists>st. reads 3 (sample_env\<lparr>ready := \<lambda>n. False\<rparr>) (constructor sample_env ''/p/a.js'' sample_options) = Some st
        \<and> fileIndex st = length (files st)
        \<and> getStats st = Inr ([''/p/a.js'', ''/p/b.js''], [])
        \<and> (\<exists>st'. reads 2 (sample_env\<lparr>ready := \<lambda>n. False\<rparr>) st = Some st' \<and> getStats st' = getStats st))"
proof -
  let ?E = "sample_env\<lparr>ready := \<lambda>n. False\<rparr>"
  let ?c = "constructor sample_env ''/p/a.js'' sample_options"
  have c: "fileIndex ?c < length (files ?c)" by (simp add: constructor_def)
  have "reads 3 ?E ?c \<noteq> None" by code_simp
  then obtain st where st: "reads 3 ?E ?c = Some st" by blast
  have "map_option (\<lambda>st. (fileIndex st, files st, addonsExcluded st)) (reads 3 ?E ?c)
          = Some (2, [''/p/a.js'', ''/p/b.js''], [])" by code_simp
  with st have f: "fileIndex st = 2" "files st = [''/p/a.js'', ''/p/b.js'']" "addonsExcluded st = []"
    by simp_all
  then have l: "fileIndex st = length (files st)" by simp
  from getStats_spec [of ?c ?E] c have 1: "getStats ?c = Inl StatsNotAvailable" by simp
  from getStats_spec [of st ?E] l f have 2: "getStats st = Inr ([''/p/a.js'', ''/p/b.js''], [])"
    and 3: "\<exists>st'. reads 2 ?E st = Some st' \<and> getStats st' = getStats st" by auto
  from 1 c st l 2 3 show ?thesis by blast
qed

end
